theory Spec2Isabelle
  imports Main "HOL-Library.Sublist"
begin

section \<open>Directory history\<close>

text \<open>
  The class \<open>DirectoryHistory\<close> of \<open>main.cpp\<close>: a deque of path strings and an index of
  type \<open>size_t\<close>. The index is a natural number; the one subtraction of the source that can
  wrap around (\<open>history.size() - 1\<close> on an empty deque, in \<open>forward\<close>) is written out.
  An exception leaves the object as it was, so every operation returns the object together
  with either the returned string or the error. The member \<open>back\<close> is \<open>back_history\<close> here,
  \<open>back\<close> being a command of Isabelle.
\<close>

record DirectoryHistory =
  history :: "string list"
  current_index :: nat

datatype history_error =
    NoPreviousDirectory   \<comment> \<open>\<open>runtime_error("No previous directory in history")\<close>\<close>
  | NoNextDirectory       \<comment> \<open>\<open>runtime_error("No next directory in history")\<close>\<close>
  | OutOfRange            \<comment> \<open>\<open>history[i]\<close> with \<open>i\<close> outside the deque: undefined in C++\<close>

definition empty_history :: DirectoryHistory where
  "empty_history = \<lparr>history = [], current_index = 0\<rparr>"

definition deque_at :: "string list \<Rightarrow> nat \<Rightarrow> history_error + string" where
  "deque_at xs i = (if i < length xs then Inr (xs ! i) else Inl OutOfRange)"

definition add :: "string \<Rightarrow> DirectoryHistory \<Rightarrow> DirectoryHistory" where
  "add path h =
     (if history h = [] \<or> last (history h) \<noteq> path
      then h\<lparr>history := history h @ [path],
             current_index := length (history h @ [path]) - 1\<rparr>
      else h)"

definition back_history :: "DirectoryHistory \<Rightarrow> (history_error + string) \<times> DirectoryHistory" where
  "back_history h =
     (if current_index h > 0
      then (let h' = h\<lparr>current_index := current_index h - 1\<rparr>
            in (deque_at (history h') (current_index h'), h'))
      else (Inl NoPreviousDirectory, h))"

definition size_minus_one :: "'a list \<Rightarrow> nat" where
  \<comment> \<open>\<open>history.size() - 1\<close> in \<open>size_t\<close> arithmetic (64 bits)\<close>
  "size_minus_one xs = (if xs = [] then 2 ^ 64 - 1 else length xs - 1)"

definition forward :: "DirectoryHistory \<Rightarrow> (history_error + string) \<times> DirectoryHistory" where
  "forward h =
     (if current_index h < size_minus_one (history h)
      then (let h' = h\<lparr>current_index := current_index h + 1\<rparr>
            in (deque_at (history h') (current_index h'), h'))
      else (Inl NoNextDirectory, h))"

definition current :: "DirectoryHistory \<Rightarrow> history_error + string" where
  "current h = deque_at (history h) (current_index h)"

text \<open>
  The constructor of \<open>Shell\<close> seeds the history with the initial working directory. A run of
  the session applies \<open>add\<close>, \<open>back\<close> and \<open>forward\<close> in some order.
\<close>

definition seeded :: "string \<Rightarrow> DirectoryHistory" where
  "seeded p0 = add p0 empty_history"

datatype history_op = Add string | Back | Forward

fun apply_op :: "DirectoryHistory \<Rightarrow> history_op \<Rightarrow> DirectoryHistory" where
  "apply_op h (Add p) = add p h"
| "apply_op h Back = snd (back_history h)"
| "apply_op h Forward = snd (forward h)"

definition run_ops :: "history_op list \<Rightarrow> DirectoryHistory \<Rightarrow> DirectoryHistory" where
  "run_ops ops h = foldl apply_op h ops"

definition history_inv :: "DirectoryHistory \<Rightarrow> bool" where
  "history_inv h = (history h \<noteq> [] \<and> current_index h < length (history h))"


section \<open>Paths and the filesystem\<close>

text \<open>
  A \<open>std::filesystem::path\<close> that is absolute and has no trailing separator, as
  \<open>fs::current_path()\<close> returns it, is the list of its components below the root
  directory: \<open>/home/u\<close> is \<open>[''home'', ''u'']\<close> and \<open>/\<close> is \<open>[]\<close>. On such a path
  \<open>fs::absolute\<close> is the identity, \<open>parent_path\<close> drops the last component and
  \<open>root_path\<close> is \<open>/\<close>. \<open>p / name\<close> replaces \<open>p\<close> when \<open>name\<close> is absolute (starts with
  a separator) and appends \<open>name\<close> otherwise; \<open>string()\<close> then gives the text of \<open>p\<close>, a
  separator and \<open>name\<close>.
\<close>

type_synonym path = "string list"

definition path_string :: "path \<Rightarrow> string" where
  "path_string p = (if p = [] then ''/'' else concat (map (\<lambda>c. CHR ''/'' # c) p))"

definition root_path :: path where
  "root_path = []"

definition parent_path :: "path \<Rightarrow> path" where
  "parent_path p = butlast p"

definition path_append :: "path \<Rightarrow> string \<Rightarrow> path" where
  "path_append p name =
     (case name of
        [] \<Rightarrow> p @ [name]
      | c # rest \<Rightarrow> if c = CHR ''/'' then [rest] else p @ [name])"

text \<open>
  The filesystem is the collaborator the search functions query. The source calls the
  throwing overloads of \<open>fs::exists\<close> and \<open>fs::is_directory\<close>: each answers yes or no, or
  throws \<open>fs::filesystem_error\<close> (\<open>None\<close>) when the status of the path cannot be read, for
  instance on a name that is too long or below a directory that may not be searched.
  \<open>fs::directory_iterator\<close> yields the entries of a directory in the order of the
  filesystem, or throws (\<open>None\<close>) when the path cannot be listed. The filesystem does not
  change while a command line is processed.
\<close>

record directory_entry =
  entry_path :: path
  entry_is_directory :: bool

record filesystem =
  fs_exists :: "path \<Rightarrow> bool option"
  fs_is_directory :: "path \<Rightarrow> bool option"
  fs_directory_iterator :: "path \<Rightarrow> directory_entry list option"

datatype find_error =
    DirectoryNotFound string string
      \<comment> \<open>\<open>runtime_error("Directory '" + dir_name + "' not found upwards from " + start)\<close>\<close>
  | SearchLimitReached
      \<comment> \<open>\<open>runtime_error("Search limit reached, target not found.")\<close>\<close>
  | TargetNotFound string
      \<comment> \<open>\<open>runtime_error("Target '" + target_pattern + "' not found.")\<close>\<close>
  | FilesystemError
      \<comment> \<open>\<open>fs::filesystem_error\<close> thrown by \<open>exists\<close>, \<open>is_directory\<close> or \<open>directory_iterator\<close>\<close>


section \<open>Upward search\<close>

text \<open>
  \<open>Shell::upfind\<close>: the loop \<open>while (true)\<close> over \<open>current\<close>, here \<open>cur\<close>. The condition
  \<open>fs::exists(candidate) && fs::is_directory(candidate)\<close> is \<open>directory_test\<close>: the second
  test runs only when the first says yes, and an exception of either leaves the function.
\<close>

definition directory_test :: "filesystem \<Rightarrow> path \<Rightarrow> bool option" where
  "directory_test fs candidate =
     (case fs_exists fs candidate of
        None \<Rightarrow> None
      | Some False \<Rightarrow> Some False
      | Some True \<Rightarrow> fs_is_directory fs candidate)"

function upfind_loop :: "filesystem \<Rightarrow> string \<Rightarrow> path \<Rightarrow> path \<Rightarrow> find_error + string" where
  "upfind_loop fs dir_name start cur =
     (let candidate = path_append cur dir_name in
      case directory_test fs candidate of
        None \<Rightarrow> Inl FilesystemError
      | Some True \<Rightarrow> Inr (path_string candidate)
      | Some False \<Rightarrow>
          if cur = root_path
          then Inl (DirectoryNotFound dir_name (path_string start))
          else upfind_loop fs dir_name start (parent_path cur))"
  by pat_completeness auto
termination
  by (relation "measure (\<lambda>(fs, dir_name, start, cur). length cur)")
     (auto simp: parent_path_def root_path_def)

definition upfind :: "filesystem \<Rightarrow> string \<Rightarrow> path \<Rightarrow> find_error + string" where
  "upfind fs dir_name start = upfind_loop fs dir_name start start"

text \<open>
  The three outcomes of the test of the loop on the directory \<open>a\<close>: \<open>name\<close> exists as a
  directory in \<open>a\<close>; the test says no; the test throws.
\<close>

definition has_directory :: "filesystem \<Rightarrow> string \<Rightarrow> path \<Rightarrow> bool" where
  "has_directory fs name a = (directory_test fs (path_append a name) = Some True)"

definition lacks_directory :: "filesystem \<Rightarrow> string \<Rightarrow> path \<Rightarrow> bool" where
  "lacks_directory fs name a = (directory_test fs (path_append a name) = Some False)"

definition test_throws :: "filesystem \<Rightarrow> string \<Rightarrow> path \<Rightarrow> bool" where
  "test_throws fs name a = (directory_test fs (path_append a name) = None)"


section \<open>Downward search\<close>

text \<open>
  \<open>fs::relative(p, base)\<close> on paths without symbolic links: the common prefix is removed,
  every remaining component of \<open>base\<close> becomes \<open>..\<close>, and equal paths give \<open>.\<close>.
  \<open>relative_string\<close> is \<open>string()\<close> of a relative path.
\<close>

fun strip_common :: "path \<Rightarrow> path \<Rightarrow> path \<times> path" where
  "strip_common (x # xs) (y # ys) =
     (if x = y then strip_common xs ys else (x # xs, y # ys))"
| "strip_common xs ys = (xs, ys)"

definition relative :: "path \<Rightarrow> path \<Rightarrow> path" where
  "relative p base =
     (case strip_common p base of
        (a, b) \<Rightarrow> if a = [] \<and> b = [] then [''.''] else replicate (length b) ''..'' @ a)"

fun relative_string :: "path \<Rightarrow> string" where
  "relative_string [] = []"
| "relative_string [x] = x"
| "relative_string (x # y # ys) = x @ CHR ''/'' # relative_string (y # ys)"

text \<open>
  The test \<open>s.size() >= pat.size() && s.compare(s.size() - pat.size(), pat.size(), pat) == 0\<close>.
\<close>

definition ends_with :: "string \<Rightarrow> string \<Rightarrow> bool" where
  "ends_with s pat =
     (length s \<ge> length pat \<and> take (length pat) (drop (length s - length pat) s) = pat)"

text \<open>
  \<open>Shell::downfind\<close>. The body of the \<open>for\<close> loop over the entries of one directory either
  leaves the function (a \<open>return\<close> or a \<open>throw\<close>) or hands the queue and the counter back
  to the \<open>while\<close> loop. The counter \<open>search_count\<close> is returned with the result, so that
  the number of entries counted is visible. It never exceeds \<open>limit\<close>, hence never wraps.
  The lines written to \<open>std::cout\<close> for each file are not modelled.
\<close>

datatype scan_state =
    Finished "find_error + string" nat
  | Continue "path list" nat

fun for_entries ::
  "string \<Rightarrow> path \<Rightarrow> nat \<Rightarrow> directory_entry list \<Rightarrow> path list \<Rightarrow> nat \<Rightarrow> scan_state" where
  "for_entries target_pattern start limit [] directories search_count =
     Continue directories search_count"
| "for_entries target_pattern start limit (entry # rest) directories search_count =
     (let directories' =
        (if entry_is_directory entry then directories @ [entry_path entry] else directories)
      in if \<not> entry_is_directory entry
            \<and> ends_with (relative_string (relative (entry_path entry) start)) target_pattern
         then Finished (Inr (path_string (entry_path entry))) search_count
         else if search_count + 1 \<ge> limit
         then Finished (Inl SearchLimitReached) (search_count + 1)
         else for_entries target_pattern start limit rest directories' (search_count + 1))"

function downfind_loop ::
  "filesystem \<Rightarrow> string \<Rightarrow> path \<Rightarrow> nat \<Rightarrow> path list \<Rightarrow> nat \<Rightarrow> (find_error + string) \<times> nat" where
  "downfind_loop fs target_pattern start limit directories search_count =
     (if directories \<noteq> [] \<and> search_count < limit
      then (case fs_directory_iterator fs (hd directories) of
              None \<Rightarrow> (Inl FilesystemError, search_count)
            | Some entries \<Rightarrow>
                (case for_entries target_pattern start limit entries (tl directories) search_count of
                   Finished r n \<Rightarrow> (r, n)
                 | Continue directories' n \<Rightarrow>
                     downfind_loop fs target_pattern start limit directories' n))
      else (Inl (TargetNotFound target_pattern), search_count))"
  by pat_completeness auto
termination
proof (relation "measure (\<lambda>(fs, pat, start, limit, q, c). 2 * (limit - c) + length q)")
  show "wf (measure (\<lambda>(fs, pat, start, limit, q, c). 2 * (limit - c) + length q))"
    by simp
next
  fix fs :: filesystem and target_pattern :: string and start :: path and limit :: nat
    and directories :: "path list" and search_count :: nat
    and entries :: "directory_entry list" and directories' :: "path list" and n :: nat
  assume guard: "directories \<noteq> [] \<and> search_count < limit"
    and cont: "for_entries target_pattern start limit entries (tl directories) search_count
               = Continue directories' n"
  have step: "for_entries target_pattern start limit es q c = Continue q' m
              \<Longrightarrow> c \<le> m \<and> (m = c \<or> m < limit) \<and> length q' + c \<le> length q + m"
    for es q c q' m
  proof (induction es arbitrary: q c)
    case Nil
    then show ?case by simp
  next
    case (Cons e es)
    from Cons.prems show ?case
      by (auto simp: Let_def split: if_splits dest!: Cons.IH)
  qed
  from step [OF cont] guard
  show "((fs, target_pattern, start, limit, directories', n),
         (fs, target_pattern, start, limit, directories, search_count))
        \<in> measure (\<lambda>(fs, pat, start, limit, q, c). 2 * (limit - c) + length q)"
    by (cases directories) auto
qed

definition downfind ::
  "filesystem \<Rightarrow> string \<Rightarrow> path \<Rightarrow> nat \<Rightarrow> (find_error + string) \<times> nat" where
  "downfind fs target_pattern start limit =
     downfind_loop fs target_pattern start limit [start] 0"


section \<open>Directory trees\<close>

text \<open>
  A filesystem without symbolic links is a tree: a directory lists named children in the
  order in which the directory iterator yields them. \<open>fs_of_tree\<close> answers the queries of
  the search functions from such a tree, every one of them without an error; \<open>wf_tree\<close> says that the names in each directory
  are distinct; \<open>cnt\<close> is the number of entries below a node; \<open>files_below\<close> lists the
  relative paths of the entries below a node that are not directories.
\<close>

datatype node = File | Dir "(string \<times> node) list"

fun is_dir_node :: "node \<Rightarrow> bool" where
  "is_dir_node (Dir es) = True"
| "is_dir_node File = False"

fun lookup :: "node \<Rightarrow> path \<Rightarrow> node option" where
  "lookup n [] = Some n"
| "lookup File (x # xs) = None"
| "lookup (Dir es) (x # xs) = (case map_of es x of None \<Rightarrow> None | Some c \<Rightarrow> lookup c xs)"

definition listing :: "path \<Rightarrow> (string \<times> node) list \<Rightarrow> directory_entry list" where
  "listing p es =
     map (\<lambda>(n, c). \<lparr>entry_path = p @ [n], entry_is_directory = is_dir_node c\<rparr>) es"

definition fs_of_tree :: "node \<Rightarrow> filesystem" where
  "fs_of_tree t =
     \<lparr>fs_exists = (\<lambda>p. Some (lookup t p \<noteq> None)),
      fs_is_directory =
        (\<lambda>p. Some (case lookup t p of Some (Dir es) \<Rightarrow> True | _ \<Rightarrow> False)),
      fs_directory_iterator =
        (\<lambda>p. case lookup t p of Some (Dir es) \<Rightarrow> Some (listing p es) | _ \<Rightarrow> None)\<rparr>"

fun cnt :: "node \<Rightarrow> nat" where
  "cnt File = 0"
| "cnt (Dir es) = sum_list (map (\<lambda>e. Suc (cnt (snd e))) es)"

fun wf_tree :: "node \<Rightarrow> bool" where
  "wf_tree File = True"
| "wf_tree (Dir es) = (distinct (map fst es) \<and> list_all (\<lambda>e. wf_tree (snd e)) es)"

fun files_below :: "node \<Rightarrow> path list" where
  "files_below File = []"
| "files_below (Dir es) =
     concat (map (\<lambda>e. if is_dir_node (snd e) then map ((#) (fst e)) (files_below (snd e))
                       else [[fst e]]) es)"

text \<open>
  The order in which a breadth-first traversal with a first-in-first-out queue of
  directories meets the entries of a tree, and the search over that sequence: the first
  file that matches is returned, every other entry counts against the limit.
\<close>

definition subdirs :: "path \<Rightarrow> (string \<times> node) list \<Rightarrow> (path \<times> node) list" where
  "subdirs p es = map (\<lambda>(n, c). (p @ [n], c)) (filter (\<lambda>(n, c). is_dir_node c) es)"

function bfs_order :: "(path \<times> node) list \<Rightarrow> directory_entry list" where
  "bfs_order [] = []"
| "bfs_order ((p, File) # q) = bfs_order q"
| "bfs_order ((p, Dir es) # q) = listing p es @ bfs_order (q @ subdirs p es)"
  by pat_completeness auto
termination
proof (relation "measure (\<lambda>q. sum_list (map (\<lambda>x. Suc (cnt (snd x))) q))")
  show "wf (measure (\<lambda>q. sum_list (map (\<lambda>x. Suc (cnt (snd x))) q)))"
    by simp
next
  fix p :: path and q :: "(path \<times> node) list"
  show "(q, (p, File) # q) \<in> measure (\<lambda>q. sum_list (map (\<lambda>x. Suc (cnt (snd x))) q))"
    by simp
next
  fix p :: path and es :: "(string \<times> node) list" and q :: "(path \<times> node) list"
  have "sum_list (map (\<lambda>x. Suc (cnt (snd x))) (subdirs p xs))
        \<le> sum_list (map (\<lambda>e. Suc (cnt (snd e))) xs)" for xs
    by (induction xs) (auto simp: subdirs_def)
  then show "(q @ subdirs p es, (p, Dir es) # q)
             \<in> measure (\<lambda>q. sum_list (map (\<lambda>x. Suc (cnt (snd x))) q))"
    by (simp add: le_imp_less_Suc)
qed

definition file_matches :: "string \<Rightarrow> path \<Rightarrow> directory_entry \<Rightarrow> bool" where
  "file_matches pat start e =
     (\<not> entry_is_directory e \<and> ends_with (relative_string (relative (entry_path e) start)) pat)"

fun examine ::
  "string \<Rightarrow> path \<Rightarrow> nat \<Rightarrow> directory_entry list \<Rightarrow> nat \<Rightarrow> (find_error + string) \<times> nat" where
  "examine pat start limit [] c = (Inl (TargetNotFound pat), c)"
| "examine pat start limit (e # es) c =
     (if file_matches pat start e then (Inr (path_string (entry_path e)), c)
      else if c + 1 \<ge> limit then (Inl SearchLimitReached, c + 1)
      else examine pat start limit es (c + 1))"

definition queue_ok :: "node \<Rightarrow> (path \<times> node) list \<Rightarrow> bool" where
  "queue_ok t qn = list_all (\<lambda>(p, nd). lookup t p = Some nd \<and> is_dir_node nd \<and> wf_tree nd) qn"


section \<open>Command transformation\<close>

text \<open>
  \<open>Shell::transform_command\<close>. The regular expression \<open>(<|>)([a-zA-Z0-9_.\-\/]+)\<close> matches a
  marker followed by the longest run of path characters; \<open>regex_matches\<close> is the sequence
  of matches that \<open>std::sregex_iterator\<close> yields, each with its position in the line and
  its two groups. The loop copies the text since the last match with \<open>substr\<close>, then the
  found path or, in the \<open>catch\<close> branch, the matched text. The current directory is the
  start of both searches and the limit of the downward search is its default, 1000. The
  diagnostics written to \<open>std::cerr\<close> are not modelled.
\<close>

definition path_safe :: "char \<Rightarrow> bool" where
  "path_safe c =
     (let n = (of_char c :: nat)
      in (97 \<le> n \<and> n \<le> 122) \<or> (65 \<le> n \<and> n \<le> 90) \<or> (48 \<le> n \<and> n \<le> 57)
         \<or> c = CHR ''_'' \<or> c = CHR ''.'' \<or> c = CHR ''-'' \<or> c = CHR ''/'')"

definition is_marker :: "char \<Rightarrow> bool" where
  "is_marker c = (c = CHR ''<'' \<or> c = CHR ''>'')"

record regex_match =
  match_position :: nat
  match_direction :: char
  match_pattern :: string

definition match_str0 :: "regex_match \<Rightarrow> string" where
  "match_str0 m = match_direction m # match_pattern m"

function regex_matches :: "nat \<Rightarrow> string \<Rightarrow> regex_match list" where
  "regex_matches pos [] = []"
| "regex_matches pos (c # cs) =
     (if is_marker c \<and> takeWhile path_safe cs \<noteq> []
      then \<lparr>match_position = pos, match_direction = c,
            match_pattern = takeWhile path_safe cs\<rparr>
           # regex_matches (pos + 1 + length (takeWhile path_safe cs)) (dropWhile path_safe cs)
      else regex_matches (pos + 1) cs)"
  by pat_completeness auto
termination
  by (relation "measure (\<lambda>(pos, s). length s)")
     (auto simp: length_dropWhile_le le_imp_less_Suc)

definition substr :: "string \<Rightarrow> nat \<Rightarrow> nat \<Rightarrow> string" where
  "substr s pos n = take n (drop pos s)"

definition find_path :: "filesystem \<Rightarrow> path \<Rightarrow> char \<Rightarrow> string \<Rightarrow> find_error + string" where
  "find_path fs cwd direction path_pattern =
     (if direction = CHR ''<'' then upfind fs path_pattern cwd
      else if direction = CHR ''>'' then fst (downfind fs path_pattern cwd 1000)
      else Inr [])"

fun transform_loop ::
  "filesystem \<Rightarrow> path \<Rightarrow> string \<Rightarrow> regex_match list \<Rightarrow> string \<Rightarrow> nat \<Rightarrow> string \<times> nat" where
  "transform_loop fs cwd command [] result last_pos = (result, last_pos)"
| "transform_loop fs cwd command (m # ms) result last_pos =
     (let match_pos = match_position m;
          result1 = result @ substr command last_pos (match_pos - last_pos);
          result2 = (case find_path fs cwd (match_direction m) (match_pattern m) of
                       Inr found_path \<Rightarrow> result1 @ found_path
                     | Inl e \<Rightarrow> result1 @ match_str0 m)
      in transform_loop fs cwd command ms result2 (match_pos + length (match_str0 m)))"

definition transform_command :: "filesystem \<Rightarrow> path \<Rightarrow> string \<Rightarrow> string" where
  "transform_command fs cwd command =
     (case transform_loop fs cwd command (regex_matches 0 command) [] 0 of
        (result, last_pos) \<Rightarrow> result @ drop last_pos command)"

text \<open>
  The transformer as the specification describes it: the line is a sequence of directive
  tokens (a marker immediately followed by one or more path characters) and of the
  characters outside them; each token is rendered on its own, a directive as the path
  found or, when the search fails, as its own text.
\<close>

datatype token = Lit char | Directive char string

function tokens :: "string \<Rightarrow> token list" where
  "tokens [] = []"
| "tokens (c # cs) =
     (if is_marker c \<and> takeWhile path_safe cs \<noteq> []
      then Directive c (takeWhile path_safe cs) # tokens (dropWhile path_safe cs)
      else Lit c # tokens cs)"
  by pat_completeness auto
termination
  by (relation "measure length") (auto simp: length_dropWhile_le le_imp_less_Suc)

fun token_text :: "token \<Rightarrow> string" where
  "token_text (Lit c) = [c]"
| "token_text (Directive d p) = d # p"

fun render :: "filesystem \<Rightarrow> path \<Rightarrow> token \<Rightarrow> string" where
  "render fs cwd (Lit c) = [c]"
| "render fs cwd (Directive d p) =
     (case find_path fs cwd d p of Inr found_path \<Rightarrow> found_path | Inl e \<Rightarrow> d # p)"

fun has_directive :: "string \<Rightarrow> bool" where
  "has_directive (c # d # cs) = ((is_marker c \<and> path_safe d) \<or> has_directive (d # cs))"
| "has_directive cs = False"


section \<open>Changing the directory\<close>

text \<open>
  \<open>Shell::change_directory\<close> and the \<open>cd\<close> branch of \<open>Shell::run\<close>. The state is the history,
  the working directory of the process and the lines written to \<open>std::cout\<close> and
  \<open>std::cerr\<close>. The system call \<open>chdir\<close> is a parameter: from the working directory and the
  target it gives the new working directory, or the message of the error it sets; a
  call that fails leaves the working directory as it was, as POSIX prescribes.
  \<open>dir_history.current()\<close> outside the deque is undefined in C++; the model then prints
  nothing.
\<close>

type_synonym chdir_call = "path \<Rightarrow> string \<Rightarrow> string + path"

record shell =
  dir_history :: DirectoryHistory
  process_cwd :: path
  stdout_lines :: "string list"
  stderr_lines :: "string list"

definition change_directory :: "chdir_call \<Rightarrow> string \<Rightarrow> bool \<Rightarrow> shell \<Rightarrow> bool \<times> shell" where
  "change_directory chdir path update_history sh =
     (case chdir (process_cwd sh) path of
        Inr new_cwd \<Rightarrow>
          (let sh1 = sh\<lparr>process_cwd := new_cwd\<rparr>
           in if update_history
              then (True, sh1\<lparr>dir_history :=
                                add (path_string (process_cwd sh1)) (dir_history sh1)\<rparr>)
              else (True, sh1))
      | Inl os_error \<Rightarrow>
          (False, sh\<lparr>stderr_lines := stderr_lines sh @ [''chdir failed: '' @ os_error]\<rparr>))"

definition cd_target :: "string option \<Rightarrow> string list \<Rightarrow> string" where
  "cd_target home args =
     (if length args > 1 then args ! 1
      else (case home of Some h \<Rightarrow> h | None \<Rightarrow> ''/''))"

definition run_cd :: "chdir_call \<Rightarrow> string option \<Rightarrow> string list \<Rightarrow> shell \<Rightarrow> shell" where
  "run_cd chdir home args sh =
     (case change_directory chdir (cd_target home args) True sh of
        (True, sh') \<Rightarrow>
          (case current (dir_history sh') of
             Inr dir \<Rightarrow>
               sh'\<lparr>stdout_lines := stdout_lines sh' @ [''Changed directory to: '' @ dir]\<rparr>
           | Inl e \<Rightarrow> sh')
      | (False, sh') \<Rightarrow> sh')"

text \<open>
  A \<open>chdir\<close> for a directory tree: the target is resolved component by component, from
  the root when it starts with a separator and from the working directory otherwise, and
  is accepted when it names a directory.
\<close>

fun split_slash :: "string \<Rightarrow> string list" where
  "split_slash [] = [[]]"
| "split_slash (c # cs) =
     (if c = CHR ''/'' then [] # split_slash cs
      else (case split_slash cs of x # xs \<Rightarrow> (c # x) # xs | [] \<Rightarrow> [[c]]))"

fun walk :: "path \<Rightarrow> string list \<Rightarrow> path" where
  "walk p [] = p"
| "walk p (x # xs) =
     (if x = [] \<or> x = ''.'' then walk p xs
      else if x = ''..'' then walk (butlast p) xs
      else walk (p @ [x]) xs)"

definition chdir_of_tree :: "node \<Rightarrow> chdir_call" where
  "chdir_of_tree t cwd target =
     (let p = (if target \<noteq> [] \<and> hd target = CHR ''/'' then walk [] (split_slash target)
               else walk cwd (split_slash target))
      in if target \<noteq> [] \<and> fs_is_directory (fs_of_tree t) p = Some True then Inr p
         else Inl ''No such file or directory'')"


section \<open>An example filesystem\<close>

text \<open>
  The tree with \<open>/home/u/a/b/c.txt\<close>, \<open>/home/u/a/x\<close>, \<open>/home/u/r.md\<close> and the empty directory
  \<open>/etc\<close>, and a shell started in \<open>/home/u\<close>.
\<close>

definition example_tree :: node where
  "example_tree =
     Dir [(''home'', Dir [(''u'', Dir [(''a'', Dir [(''b'', Dir [(''c.txt'', File)]),
                                                    (''x'', File)]),
                                       (''r.md'', File)])]),
          (''etc'', Dir [])]"

text \<open>
  The same tree when the process may not search \<open>/home/u\<close>: the status of every path
  below that directory cannot be read, so \<open>fs::exists\<close> throws there.
\<close>

definition unsearchable_fs :: filesystem where
  "unsearchable_fs =
     (fs_of_tree example_tree)
       \<lparr>fs_exists :=
          (\<lambda>p. if 2 < length p \<and> take 2 p = [''home'', ''u''] then None
                else fs_exists (fs_of_tree example_tree) p)\<rparr>"

definition example_shell :: shell where
  "example_shell =
     \<lparr>dir_history = seeded ''/home/u'', process_cwd = [''home'', ''u''],
      stdout_lines = [], stderr_lines = []\<rparr>"


section \<open>Properties of the directory history\<close>

lemma history_inv_seeded: "history_inv (seeded p0)"
  by (simp add: seeded_def add_def empty_history_def history_inv_def)

lemma history_inv_add: "history_inv h \<Longrightarrow> history_inv (add p h)"
  by (simp add: add_def history_inv_def)

lemma history_inv_back: "history_inv h \<Longrightarrow> history_inv (snd (back_history h))"
  by (auto simp: back_history_def history_inv_def Let_def)

lemma history_inv_forward: "history_inv h \<Longrightarrow> history_inv (snd (forward h))"
  by (auto simp: forward_def history_inv_def Let_def size_minus_one_def)

lemma history_inv_apply_op: "history_inv h \<Longrightarrow> history_inv (apply_op h x)"
  by (cases x) (simp_all add: history_inv_add history_inv_back history_inv_forward)

lemma history_inv_foldl: "history_inv h \<Longrightarrow> history_inv (foldl apply_op h ops)"
  by (induction ops arbitrary: h) (simp_all add: history_inv_apply_op)

lemma history_back_unchanged: "history (snd (back_history h)) = history h"
  by (simp add: back_history_def Let_def)

lemma history_forward_unchanged: "history (snd (forward h)) = history h"
  by (simp add: forward_def Let_def)

text \<open>
  Claim C4. From the history seeded with \<open>P0\<close> (entries \<open>[P0]\<close>, cursor 0) and a path \<open>P1\<close>
  other than \<open>P0\<close>: \<open>add P1\<close> gives entries \<open>[P0, P1]\<close> with cursor 1; \<open>back\<close> returns \<open>P0\<close>
  with cursor 0; a second \<open>back\<close> fails with the no-previous-directory error and changes
  nothing; \<open>forward\<close> returns \<open>P1\<close> with cursor 1; a second \<open>forward\<close>, at the tail, fails
  with the no-next-directory error and changes nothing. Each step below starts in the
  state the step before it ends in.
\<close>

theorem history_scenario:
  assumes "P0 \<noteq> P1"
  shows "seeded P0 = \<lparr>history = [P0], current_index = 0\<rparr>
       \<and> add P1 (seeded P0) = \<lparr>history = [P0, P1], current_index = 1\<rparr>
       \<and> back_history \<lparr>history = [P0, P1], current_index = 1\<rparr>
           = (Inr P0, \<lparr>history = [P0, P1], current_index = 0\<rparr>)
       \<and> back_history \<lparr>history = [P0, P1], current_index = 0\<rparr>
           = (Inl NoPreviousDirectory, \<lparr>history = [P0, P1], current_index = 0\<rparr>)
       \<and> forward \<lparr>history = [P0, P1], current_index = 0\<rparr>
           = (Inr P1, \<lparr>history = [P0, P1], current_index = 1\<rparr>)
       \<and> forward \<lparr>history = [P0, P1], current_index = 1\<rparr>
           = (Inl NoNextDirectory, \<lparr>history = [P0, P1], current_index = 1\<rparr>)"
proof -
  have s0: "seeded P0 = \<lparr>history = [P0], current_index = 0\<rparr>"
    by (simp add: seeded_def add_def empty_history_def)
  have s1: "add P1 (seeded P0) = \<lparr>history = [P0, P1], current_index = 1\<rparr>"
    using assms by (simp add: s0 add_def)
  have b1: "back_history \<lparr>history = [P0, P1], current_index = 1\<rparr>
           = (Inr P0, \<lparr>history = [P0, P1], current_index = 0\<rparr>)"
    by (simp add: back_history_def deque_at_def)
  have b2: "back_history \<lparr>history = [P0, P1], current_index = 0\<rparr>
           = (Inl NoPreviousDirectory, \<lparr>history = [P0, P1], current_index = 0\<rparr>)"
    by (simp add: back_history_def)
  have f1: "forward \<lparr>history = [P0, P1], current_index = 0\<rparr>
           = (Inr P1, \<lparr>history = [P0, P1], current_index = 1\<rparr>)"
    by (simp add: forward_def size_minus_one_def deque_at_def)
  have f2: "forward \<lparr>history = [P0, P1], current_index = 1\<rparr>
           = (Inl NoNextDirectory, \<lparr>history = [P0, P1], current_index = 1\<rparr>)"
    by (simp add: forward_def size_minus_one_def)
  show ?thesis
    using s0 s1 b1 b2 f1 f2 by (intro conjI)
qed

theorem history_scenario_witness:
  "''/home'' \<noteq> ''/tmp''
   \<and> add ''/tmp'' (seeded ''/home'') = \<lparr>history = [''/home'', ''/tmp''], current_index = 1\<rparr>
   \<and> back_history \<lparr>history = [''/home'', ''/tmp''], current_index = 1\<rparr>
       = (Inr ''/home'', \<lparr>history = [''/home'', ''/tmp''], current_index = 0\<rparr>)
   \<and> forward \<lparr>history = [''/home'', ''/tmp''], current_index = 1\<rparr>
       = (Inl NoNextDirectory, \<lparr>history = [''/home'', ''/tmp''], current_index = 1\<rparr>)"
proof -
  have ne: "''/home'' \<noteq> ''/tmp''" by simp
  show ?thesis
    using ne history_scenario [OF ne] by blast
qed

text \<open>
  Claim C5. Every history reached from the seeded one by a sequence of \<open>add\<close>, \<open>back\<close> and
  \<open>forward\<close> has at least one entry and a cursor below the number of entries; \<open>back\<close> and
  \<open>forward\<close> leave the entries of any history as they are.
\<close>

theorem history_invariant:
  "history (run_ops ops (seeded p0)) \<noteq> []
   \<and> current_index (run_ops ops (seeded p0)) < length (history (run_ops ops (seeded p0)))
   \<and> history (snd (back_history h)) = history h
   \<and> history (snd (forward h)) = history h"
proof -
  have "history_inv (run_ops ops (seeded p0))"
    unfolding run_ops_def by (rule history_inv_foldl [OF history_inv_seeded])
  then show ?thesis
    by (simp add: history_inv_def history_back_unchanged history_forward_unchanged)
qed

theorem history_invariant_witness:
  "history (run_ops [Back, Add ''/b'', Forward, Back, Back, Back] (seeded ''/a'')) = [''/a'', ''/b'']
   \<and> current_index (run_ops [Back, Add ''/b'', Forward, Back, Back, Back] (seeded ''/a'')) = 0
   \<and> current_index (run_ops [Back, Add ''/b'', Forward, Back, Back, Back] (seeded ''/a''))
       < length (history (run_ops [Back, Add ''/b'', Forward, Back, Back, Back] (seeded ''/a'')))"
  using history_invariant [of "[Back, Add ''/b'', Forward, Back, Back, Back]" "''/a''" empty_history]
  by (simp add: run_ops_def seeded_def add_def back_history_def forward_def empty_history_def
      size_minus_one_def deque_at_def)

text \<open>
  Claim C8. \<open>add P\<close> on a history whose tail entry is \<open>P\<close> changes neither the entries nor
  the cursor, and from any history \<open>add P\<close> twice gives the same history as \<open>add P\<close> once.
\<close>

theorem add_duplicate_noop:
  "(history h \<noteq> [] \<and> last (history h) = P \<longrightarrow> add P h = h)
   \<and> add P (add P h) = add P h"
  by (simp add: add_def)

theorem add_duplicate_noop_witness:
  "history \<lparr>history = [''/a'', ''/b''], current_index = 0\<rparr> \<noteq> []
   \<and> last (history \<lparr>history = [''/a'', ''/b''], current_index = 0\<rparr>) = ''/b''
   \<and> add ''/b'' \<lparr>history = [''/a'', ''/b''], current_index = 0\<rparr>
       = \<lparr>history = [''/a'', ''/b''], current_index = 0\<rparr>"
  using add_duplicate_noop [of "\<lparr>history = [''/a'', ''/b''], current_index = 0\<rparr>" "''/b''"]
  by simp

section \<open>Properties of the upward search\<close>

declare upfind_loop.simps [simp del]

lemma upfind_loop_unfold:
  "upfind_loop fs N s cur =
     (case directory_test fs (path_append cur N) of
        None \<Rightarrow> Inl FilesystemError
      | Some True \<Rightarrow> Inr (path_string (path_append cur N))
      | Some False \<Rightarrow>
          if cur = [] then Inl (DirectoryNotFound N (path_string s))
          else upfind_loop fs N s (butlast cur))"
  by (subst upfind_loop.simps)
     (simp add: Let_def root_path_def parent_path_def split: option.splits bool.splits)

lemma upfind_loop_here:
  "upfind_loop fs N s cur =
     (case directory_test fs (path_append cur N) of
        None \<Rightarrow> Inl FilesystemError
      | Some True \<Rightarrow> Inr (path_string (path_append cur N))
      | Some False \<Rightarrow> upfind_loop fs N s cur)"
proof (cases "directory_test fs (path_append cur N)")
  case None
  then show ?thesis by (subst upfind_loop_unfold) simp
next
  case (Some b)
  show ?thesis
  proof (cases b)
    case True
    with Some show ?thesis by (subst upfind_loop_unfold) simp
  next
    case False
    with Some show ?thesis by simp
  qed
qed

lemma upfind_loop_outcome:
  "k \<le> length cur
   \<Longrightarrow> (\<forall>j. k < j \<and> j \<le> length cur \<longrightarrow> lacks_directory fs N (take j cur))
   \<Longrightarrow> upfind_loop fs N s cur =
       (case directory_test fs (path_append (take k cur) N) of
          None \<Rightarrow> Inl FilesystemError
        | Some True \<Rightarrow> Inr (path_string (path_append (take k cur) N))
        | Some False \<Rightarrow> upfind_loop fs N s (take k cur))"
proof (induction cur rule: rev_induct)
  case Nil
  show ?case
    by (simp only: take_Nil) (rule upfind_loop_here)
next
  case (snoc x xs)
  show ?case
  proof (cases "k = Suc (length xs)")
    case True
    then have tk: "take k (xs @ [x]) = xs @ [x]" by simp
    show ?thesis
      unfolding tk by (rule upfind_loop_here)
  next
    case False
    with snoc.prems have le: "k \<le> length xs" by simp
    from snoc.prems(2) le have nd: "lacks_directory fs N (xs @ [x])"
      by (auto dest: spec [of _ "Suc (length xs)"])
    have far: "\<forall>j. k < j \<and> j \<le> length xs \<longrightarrow> lacks_directory fs N (take j xs)"
    proof (intro allI impI)
      fix j assume j: "k < j \<and> j \<le> length xs"
      with snoc.prems(2) have "lacks_directory fs N (take j (xs @ [x]))"
        by (auto dest!: spec [of _ j])
      with j show "lacks_directory fs N (take j xs)" by simp
    qed
    have step: "upfind_loop fs N s (xs @ [x]) = upfind_loop fs N s xs"
      using nd by (subst upfind_loop_unfold) (simp add: lacks_directory_def)
    from le have tk: "take k (xs @ [x]) = take k xs" by simp
    from snoc.IH [OF le far] show ?thesis
      unfolding step tk .
  qed
qed

lemma upfind_loop_not_found:
  "(\<forall>k\<le>length cur. lacks_directory fs N (take k cur))
   \<Longrightarrow> upfind_loop fs N s cur = Inl (DirectoryNotFound N (path_string s))"
proof -
  assume a: "\<forall>k\<le>length cur. lacks_directory fs N (take k cur)"
  then have far: "\<forall>j. 0 < j \<and> j \<le> length cur \<longrightarrow> lacks_directory fs N (take j cur)"
    by simp
  from a have root: "lacks_directory fs N []"
    by (auto dest: spec [of _ 0])
  have "upfind_loop fs N s [] = Inl (DirectoryNotFound N (path_string s))"
    using root by (subst upfind_loop_unfold) (simp add: lacks_directory_def)
  with upfind_loop_outcome [of 0 cur fs N s, OF _ far] root show ?thesis
    by (simp add: lacks_directory_def)
qed

lemma upfind_loop_not_found_root:
  "upfind_loop fs N s cur = Inl (DirectoryNotFound a b) \<Longrightarrow> lacks_directory fs N []"
proof (induction cur rule: rev_induct)
  case Nil
  then show ?case
    by (subst (asm) upfind_loop_unfold)
       (simp add: lacks_directory_def split: option.splits bool.splits)
next
  case (snoc x xs)
  from snoc.prems have "upfind_loop fs N s xs = Inl (DirectoryNotFound a b)"
    by (subst (asm) upfind_loop_unfold) (simp split: option.splits bool.splits)
  then show ?case by (rule snoc.IH)
qed

text \<open>
  Claim C1, as the code has it. Let \<open>D\<close> be the start directory and \<open>N\<close> a name; the
  ancestors of \<open>D\<close>, \<open>D\<close> included, are the prefixes \<open>take k D\<close>, the root being
  \<open>take 0 D\<close>. The loop tests \<open>D\<close> first and then each parent. If the test says yes at the
  ancestor \<open>take k D\<close> and no at every closer one, \<open>upfind\<close> returns the path of \<open>N\<close> in
  that ancestor. If the test says no at every ancestor up to and including the root,
  \<open>upfind\<close> fails with the not-found error; whenever it fails with that error, the test
  has said no at the root. If the test throws at an ancestor and says no at every closer
  one, \<open>upfind\<close> fails with the filesystem error, whatever the ancestors further up
  hold.
\<close>

theorem upfind_closest_ancestor:
  "(k \<le> length D \<and> has_directory fs N (take k D)
      \<and> (\<forall>j. k < j \<and> j \<le> length D \<longrightarrow> lacks_directory fs N (take j D))
     \<longrightarrow> upfind fs N D = Inr (path_string (path_append (take k D) N)))
   \<and> ((\<forall>k\<le>length D. lacks_directory fs N (take k D))
     \<longrightarrow> upfind fs N D = Inl (DirectoryNotFound N (path_string D)))
   \<and> (upfind fs N D = Inl (DirectoryNotFound a b) \<longrightarrow> lacks_directory fs N root_path)
   \<and> (k \<le> length D \<and> test_throws fs N (take k D)
      \<and> (\<forall>j. k < j \<and> j \<le> length D \<longrightarrow> lacks_directory fs N (take j D))
     \<longrightarrow> upfind fs N D = Inl FilesystemError)"
proof (intro conjI impI)
  assume h: "k \<le> length D \<and> has_directory fs N (take k D)
      \<and> (\<forall>j. k < j \<and> j \<le> length D \<longrightarrow> lacks_directory fs N (take j D))"
  then have le: "k \<le> length D"
    and far: "\<forall>j. k < j \<and> j \<le> length D \<longrightarrow> lacks_directory fs N (take j D)"
    by blast+
  from upfind_loop_outcome [OF le far, of D] h
  show "upfind fs N D = Inr (path_string (path_append (take k D) N))"
    by (simp add: upfind_def has_directory_def)
next
  assume "\<forall>k\<le>length D. lacks_directory fs N (take k D)"
  then show "upfind fs N D = Inl (DirectoryNotFound N (path_string D))"
    unfolding upfind_def by (rule upfind_loop_not_found)
next
  assume "upfind fs N D = Inl (DirectoryNotFound a b)"
  then show "lacks_directory fs N root_path"
    unfolding upfind_def root_path_def by (rule upfind_loop_not_found_root)
next
  assume h: "k \<le> length D \<and> test_throws fs N (take k D)
      \<and> (\<forall>j. k < j \<and> j \<le> length D \<longrightarrow> lacks_directory fs N (take j D))"
  then have le: "k \<le> length D"
    and far: "\<forall>j. k < j \<and> j \<le> length D \<longrightarrow> lacks_directory fs N (take j D)"
    by blast+
  from upfind_loop_outcome [OF le far, of D] h
  show "upfind fs N D = Inl FilesystemError"
    by (simp add: upfind_def test_throws_def)
qed

theorem upfind_closest_ancestor_witness:
  "has_directory (fs_of_tree example_tree) ''etc'' []
   \<and> lacks_directory (fs_of_tree example_tree) ''etc'' [''home'']
   \<and> lacks_directory (fs_of_tree example_tree) ''etc'' [''home'', ''u'']
   \<and> upfind (fs_of_tree example_tree) ''etc'' [''home'', ''u''] = Inr ''/etc''
   \<and> lacks_directory (fs_of_tree example_tree) ''zz'' []
   \<and> lacks_directory (fs_of_tree example_tree) ''zz'' [''home'']
   \<and> lacks_directory (fs_of_tree example_tree) ''zz'' [''home'', ''u'']
   \<and> upfind (fs_of_tree example_tree) ''zz'' [''home'', ''u'']
       = Inl (DirectoryNotFound ''zz'' ''/home/u'')
   \<and> test_throws unsearchable_fs ''etc'' [''home'', ''u'']
   \<and> upfind unsearchable_fs ''etc'' [''home'', ''u''] = Inl FilesystemError"
proof -
  let ?fs = "fs_of_tree example_tree"
  let ?D = "[''home'', ''u'']"
  note ev = has_directory_def lacks_directory_def test_throws_def directory_test_def
    fs_of_tree_def example_tree_def path_append_def unsearchable_fs_def
  have e0: "has_directory ?fs ''etc'' []" by (simp add: ev)
  have e1: "lacks_directory ?fs ''etc'' [''home'']" by (simp add: ev)
  have e2: "lacks_directory ?fs ''etc'' [''home'', ''u'']" by (simp add: ev)
  have z0: "lacks_directory ?fs ''zz'' []" by (simp add: ev)
  have z1: "lacks_directory ?fs ''zz'' [''home'']" by (simp add: ev)
  have z2: "lacks_directory ?fs ''zz'' [''home'', ''u'']" by (simp add: ev)
  have t2: "test_throws unsearchable_fs ''etc'' [''home'', ''u'']" by (simp add: ev)
  have cases2: "j = 0 \<or> j = 1 \<or> j = 2" if "j \<le> length ?D" for j
    using that by auto
  have far: "\<forall>j. 0 < j \<and> j \<le> length ?D \<longrightarrow> lacks_directory ?fs ''etc'' (take j ?D)"
  proof (intro allI impI)
    fix j assume j: "0 < j \<and> j \<le> length ?D"
    with cases2 [of j] have "j = 1 \<or> j = 2" by auto
    with e1 e2 show "lacks_directory ?fs ''etc'' (take j ?D)" by auto
  qed
  have none: "\<forall>k\<le>length ?D. lacks_directory ?fs ''zz'' (take k ?D)"
  proof (intro allI impI)
    fix k assume "k \<le> length ?D"
    with cases2 [of k] z0 z1 z2 show "lacks_directory ?fs ''zz'' (take k ?D)" by auto
  qed
  have found: "upfind ?fs ''etc'' ?D = Inr ''/etc''"
    using upfind_closest_ancestor [of 0 ?D ?fs "''etc''"] e0 far
    by (simp add: path_string_def path_append_def)
  have missing: "upfind ?fs ''zz'' ?D = Inl (DirectoryNotFound ''zz'' ''/home/u'')"
    using upfind_closest_ancestor [of 0 ?D ?fs "''zz''"] none
    by (simp add: path_string_def)
  have beyond: "\<forall>j. 2 < j \<and> j \<le> length ?D
                   \<longrightarrow> lacks_directory unsearchable_fs ''etc'' (take j ?D)"
    by auto
  have t2': "2 \<le> length ?D \<and> test_throws unsearchable_fs ''etc'' (take 2 ?D)"
    using t2 by simp
  have thrown: "upfind unsearchable_fs ''etc'' ?D = Inl FilesystemError"
    using upfind_closest_ancestor [of 2 ?D unsearchable_fs "''etc''"] t2' beyond
    by blast
  from e0 e1 e2 z0 z1 z2 t2 found missing thrown show ?thesis by blast
qed

theorem upfind_filesystem_error_counterexample:
  "lookup example_tree [''etc''] = Some (Dir [])
   \<and> lookup example_tree [''home'', ''etc''] = None
   \<and> lookup example_tree [''home'', ''u'', ''etc''] = None
   \<and> fs_exists unsearchable_fs [''etc''] = Some True
   \<and> fs_is_directory unsearchable_fs [''etc''] = Some True
   \<and> fs_exists unsearchable_fs [''home'', ''u'', ''etc''] = None
   \<and> upfind unsearchable_fs ''etc'' [''home'', ''u''] = Inl FilesystemError
   \<and> upfind unsearchable_fs ''etc'' [''home'', ''u''] \<noteq> Inr ''/etc''
   \<and> lookup example_tree [''zz''] = None
   \<and> lookup example_tree [''home'', ''zz''] = None
   \<and> lookup example_tree [''home'', ''u'', ''zz''] = None
   \<and> upfind unsearchable_fs ''zz'' [''home'', ''u''] = Inl FilesystemError
   \<and> upfind unsearchable_fs ''zz'' [''home'', ''u'']
       \<noteq> Inl (DirectoryNotFound ''zz'' ''/home/u'')"
  by (simp add: upfind_def upfind_loop_unfold directory_test_def unsearchable_fs_def
      fs_of_tree_def example_tree_def path_append_def)


section \<open>Properties of the downward search\<close>

subsection \<open>The loops follow the breadth-first order\<close>

lemma for_entries_examine:
  "(case for_entries pat start limit es q c of
      Finished r n \<Rightarrow> examine pat start limit (es @ rest) c = (r, n)
    | Continue q' n \<Rightarrow>
        q' = q @ map entry_path (filter entry_is_directory es)
        \<and> n = c + length es \<and> (es \<noteq> [] \<longrightarrow> n < limit)
        \<and> examine pat start limit (es @ rest) c = examine pat start limit rest n)"
proof (induction es arbitrary: q c)
  case Nil
  show ?case by simp
next
  case (Cons e es)
  show ?case
  proof (cases "file_matches pat start e")
    case True
    then show ?thesis by (simp add: file_matches_def)
  next
    case nm: False
    show ?thesis
    proof (cases "c + 1 \<ge> limit")
      case True
      with nm show ?thesis by (auto simp: file_matches_def Let_def)
    next
      case False
      let ?q = "if entry_is_directory e then q @ [entry_path e] else q"
      have unfold: "for_entries pat start limit (e # es) q c
                    = for_entries pat start limit es ?q (c + 1)"
        using nm False by (auto simp: file_matches_def Let_def)
      have ex: "examine pat start limit ((e # es) @ rest) c
                = examine pat start limit (es @ rest) (c + 1)"
        using nm False by simp
      from Cons.IH [where q = ?q and c = "c + 1"] False show ?thesis
        unfolding unfold ex
        by (cases "for_entries pat start limit es ?q (c + 1)") auto
    qed
  qed
qed


lemma lookup_append:
  "lookup t (p @ r) = (case lookup t p of None \<Rightarrow> None | Some nd \<Rightarrow> lookup nd r)"
proof (induction p arbitrary: t)
  case Nil
  show ?case by simp
next
  case (Cons x xs)
  show ?case
  proof (cases t)
    case File
    then show ?thesis by simp
  next
    case (Dir es)
    then show ?thesis by (simp add: Cons.IH split: option.splits)
  qed
qed

lemma wf_tree_child:
  "wf_tree (Dir es) \<Longrightarrow> (n, c) \<in> set es \<Longrightarrow> map_of es n = Some c \<and> wf_tree c"
  by (auto simp: list_all_iff)

lemma lookup_child:
  "lookup t p = Some (Dir es) \<Longrightarrow> wf_tree (Dir es) \<Longrightarrow> (n, c) \<in> set es
   \<Longrightarrow> lookup t (p @ [n]) = Some c"
  by (simp add: lookup_append wf_tree_child)

lemma lookup_wf: "wf_tree t \<Longrightarrow> lookup t p = Some nd \<Longrightarrow> wf_tree nd"
proof (induction p arbitrary: t)
  case Nil
  then show ?case by simp
next
  case (Cons x xs)
  show ?case
  proof (cases t)
    case File
    with Cons.prems show ?thesis by simp
  next
    case (Dir es)
    with Cons.prems obtain c where c: "map_of es x = Some c" "lookup c xs = Some nd"
      by (auto split: option.splits)
    from c(1) have "(x, c) \<in> set es" by (rule map_of_SomeD)
    with Cons.prems(1) Dir have "wf_tree c" by (auto simp: list_all_iff)
    from Cons.IH [OF this c(2)] show ?thesis .
  qed
qed

lemma queue_ok_subdirs:
  assumes "lookup t p = Some (Dir es)" "wf_tree (Dir es)"
  shows "queue_ok t (subdirs p es)"
  unfolding queue_ok_def subdirs_def list_all_iff
proof (intro ballI)
  fix x assume "x \<in> set (map (\<lambda>(n, c). (p @ [n], c)) (filter (\<lambda>(n, c). is_dir_node c) es))"
  then obtain n c where x: "x = (p @ [n], c)" and mem: "(n, c) \<in> set es" and d: "is_dir_node c"
    by auto
  from lookup_child [OF assms mem] wf_tree_child [OF assms(2) mem] d
  show "case x of (p, nd) \<Rightarrow> lookup t p = Some nd \<and> is_dir_node nd \<and> wf_tree nd"
    by (simp add: x)
qed

lemma listing_dirs:
  "map entry_path (filter entry_is_directory (listing p es)) = map fst (subdirs p es)"
  by (induction es) (auto simp: listing_def subdirs_def)

lemma downfind_loop_examine:
  "queue_ok t qn \<Longrightarrow> c < limit
   \<Longrightarrow> downfind_loop (fs_of_tree t) pat start limit (map fst qn) c
       = examine pat start limit (bfs_order qn) c"
proof (induction qn arbitrary: c rule: bfs_order.induct)
  case 1
  show ?case by simp
next
  case (2 p q)
  then show ?case by (simp add: queue_ok_def)
next
  case (3 p es q)
  from "3.prems"(1) have lk: "lookup t p = Some (Dir es)" and wf: "wf_tree (Dir es)"
    and qok: "queue_ok t q"
    by (simp_all add: queue_ok_def)
  have it: "fs_directory_iterator (fs_of_tree t) p = Some (listing p es)"
    by (simp add: fs_of_tree_def lk)
  have ok': "queue_ok t (q @ subdirs p es)"
    using qok queue_ok_subdirs [OF lk wf] by (simp add: queue_ok_def)
  note fe = for_entries_examine [where pat = pat and start = start and limit = limit
      and es = "listing p es" and q = "map fst q" and c = c
      and rest = "bfs_order (q @ subdirs p es)"]
  show ?case
  proof (cases "for_entries pat start limit (listing p es) (map fst q) c")
    case (Finished r n)
    with fe "3.prems"(2) it show ?thesis
      by (subst downfind_loop.simps) simp
  next
    case (Continue q' n)
    from fe [unfolded Continue scan_state.case]
    have all: "q' = map fst q @ map entry_path (filter entry_is_directory (listing p es))
        \<and> n = c + length (listing p es) \<and> (listing p es \<noteq> [] \<longrightarrow> n < limit)
        \<and> examine pat start limit (listing p es @ bfs_order (q @ subdirs p es)) c
            = examine pat start limit (bfs_order (q @ subdirs p es)) n" .
    from all have q': "q' = map fst (q @ subdirs p es)"
      by (simp add: listing_dirs)
    from all have n: "n = c + length (listing p es)" "listing p es \<noteq> [] \<longrightarrow> n < limit"
      by blast+
    from all have ex: "examine pat start limit (listing p es @ bfs_order (q @ subdirs p es)) c
               = examine pat start limit (bfs_order (q @ subdirs p es)) n"
      by blast
    from n "3.prems"(2) have nl: "n < limit" by (cases "listing p es") auto
    from "3.IH" [OF ok' nl] Continue "3.prems"(2) it ex q' show ?thesis
      by (subst downfind_loop.simps) simp
  qed
qed

subsection \<open>The search over a sequence of entries\<close>

lemma examine_limit:
  "(\<forall>e\<in>set E. \<not> file_matches pat start e) \<Longrightarrow> c < limit \<Longrightarrow> limit \<le> c + length E
   \<Longrightarrow> examine pat start limit (E @ post) c = (Inl SearchLimitReached, limit)"
proof (induction E arbitrary: c)
  case Nil
  then show ?case by simp
next
  case (Cons e E)
  show ?case
  proof (cases "c + 1 \<ge> limit")
    case True
    with Cons.prems show ?thesis by simp
  next
    case False
    then have lt: "c + 1 < limit" by simp
    from Cons.prems have le: "limit \<le> c + 1 + length E" by simp
    from Cons.IH [OF _ lt le] Cons.prems False show ?thesis by simp
  qed
qed

lemma examine_exhausted:
  "(\<forall>e\<in>set E. \<not> file_matches pat start e) \<Longrightarrow> c + length E < limit
   \<Longrightarrow> examine pat start limit E c = (Inl (TargetNotFound pat), c + length E)"
proof (induction E arbitrary: c)
  case Nil
  then show ?case by simp
next
  case (Cons e E)
  from Cons.prems have "c + 1 + length E < limit" by simp
  from Cons.IH [OF _ this] Cons.prems show ?case by simp
qed

lemma examine_first_match:
  "(\<forall>x\<in>set pre. \<not> file_matches pat start x) \<Longrightarrow> file_matches pat start e
   \<Longrightarrow> c + length pre < limit
   \<Longrightarrow> examine pat start limit (pre @ e # post) c
       = (Inr (path_string (entry_path e)), c + length pre)"
proof (induction pre arbitrary: c)
  case Nil
  then show ?case by simp
next
  case (Cons x pre)
  from Cons.prems have "c + 1 + length pre < limit" by simp
  from Cons.IH [OF _ Cons.prems(2) this] Cons.prems show ?case by simp
qed

lemma sum_cnt_subdirs:
  "sum_list (map (\<lambda>x. cnt (snd x)) (subdirs p es)) = sum_list (map (\<lambda>e. cnt (snd e)) es)"
proof (induction es)
  case Nil
  show ?case by (simp add: subdirs_def)
next
  case (Cons a es)
  obtain n c where a: "a = (n, c)" by (cases a)
  from Cons.IH show ?case
    by (cases c) (simp_all add: subdirs_def a)
qed

lemma cnt_Dir: "cnt (Dir es) = length es + sum_list (map (\<lambda>e. cnt (snd e)) es)"
  by (induction es) simp_all

lemma length_bfs_order:
  "length (bfs_order qn) = sum_list (map (\<lambda>x. cnt (snd x)) qn)"
proof (induction qn rule: bfs_order.induct)
  case 1
  show ?case by simp
next
  case (2 p q)
  then show ?case by simp
next
  case (3 p es q)
  then show ?case
    by (simp add: sum_cnt_subdirs cnt_Dir listing_def del: cnt.simps)
qed

lemma bfs_order_entry:
  "e \<in> set (bfs_order qn) \<Longrightarrow> list_all (\<lambda>x. wf_tree (snd x)) qn
   \<Longrightarrow> \<exists>p nd rest c. (p, nd) \<in> set qn \<and> rest \<noteq> [] \<and> entry_path e = p @ rest
         \<and> lookup nd rest = Some c \<and> entry_is_directory e = is_dir_node c"
proof (induction qn rule: bfs_order.induct)
  case 1
  then show ?case by simp
next
  case (2 p q)
  then show ?case by auto
next
  case (3 p es q)
  from "3.prems"(2) have wf: "wf_tree (Dir es)" and wfq: "list_all (\<lambda>x. wf_tree (snd x)) q"
    by simp_all
  from "3.prems"(1) consider (here) "e \<in> set (listing p es)"
    | (later) "e \<in> set (bfs_order (q @ subdirs p es))" by auto
  then show ?case
  proof cases
    case here
    then obtain n c where mem: "(n, c) \<in> set es"
      and e: "e = \<lparr>entry_path = p @ [n], entry_is_directory = is_dir_node c\<rparr>"
      by (auto simp: listing_def)
    from wf_tree_child [OF wf mem] have "lookup (Dir es) [n] = Some c" by simp
    with e show ?thesis by (intro exI [of _ p] exI [of _ "Dir es"] exI [of _ "[n]"] exI [of _ c]) simp
  next
    case later
    have wfs: "list_all (\<lambda>x. wf_tree (snd x)) (subdirs p es)"
      using wf by (auto simp: subdirs_def list_all_iff)
    from "3.IH" [OF later] wfq wfs
    obtain p' nd rest c where in_q: "(p', nd) \<in> set (q @ subdirs p es)" and ne: "rest \<noteq> []"
      and ep: "entry_path e = p' @ rest" and lk: "lookup nd rest = Some c"
      and d: "entry_is_directory e = is_dir_node c"
      by auto
    show ?thesis
    proof (cases "(p', nd) \<in> set q")
      case True
      with ne ep lk d show ?thesis
        by (intro exI [of _ p'] exI [of _ nd] exI [of _ rest] exI [of _ c]) simp
    next
      case False
      with in_q obtain n where mem: "(n, nd) \<in> set es" and p': "p' = p @ [n]"
        by (auto simp: subdirs_def)
      from wf_tree_child [OF wf mem] lk have "lookup (Dir es) (n # rest) = Some c" by simp
      with ep d p' show ?thesis
        by (intro exI [of _ p] exI [of _ "Dir es"] exI [of _ "n # rest"] exI [of _ c]) simp
    qed
  qed
qed

lemma strip_common_append: "strip_common (s @ r) s = (r, [])"
proof (induction s)
  case Nil
  show ?case by (cases r) simp_all
next
  case (Cons a s)
  then show ?case by simp
qed

lemma relative_below: "r \<noteq> [] \<Longrightarrow> relative (s @ r) s = r"
  by (simp add: relative_def strip_common_append)

lemma lookup_files_below:
  "lookup nd rest = Some File \<Longrightarrow> rest \<noteq> [] \<Longrightarrow> rest \<in> set (files_below nd)"
proof (induction rest arbitrary: nd)
  case Nil
  then show ?case by simp
next
  case (Cons x xs)
  show ?case
  proof (cases nd)
    case File
    with Cons.prems show ?thesis by simp
  next
    case (Dir es)
    with Cons.prems obtain c where c: "map_of es x = Some c" "lookup c xs = Some File"
      by (auto split: option.splits)
    from c(1) have mem: "(x, c) \<in> set es" by (rule map_of_SomeD)
    show ?thesis
    proof (cases xs)
      case Nil
      with c(2) have "c = File" by simp
      with mem Dir Nil show ?thesis by force
    next
      case (Cons y ys)
      with c(2) have d: "is_dir_node c" by (cases c) simp_all
      from Cons.IH [OF c(2)] Cons have "xs \<in> set (files_below c)" by simp
      with mem d Dir show ?thesis by force
    qed
  qed
qed

lemma no_match_bfs:
  assumes wf: "wf_tree (Dir es)"
    and nm: "\<forall>r\<in>set (files_below (Dir es)). \<not> ends_with (relative_string r) pat"
  shows "\<forall>e\<in>set (bfs_order [(start, Dir es)]). \<not> file_matches pat start e"
proof
  fix e assume "e \<in> set (bfs_order [(start, Dir es)])"
  from bfs_order_entry [OF this] wf
  obtain rest c where ne: "rest \<noteq> []" and ep: "entry_path e = start @ rest"
    and lk: "lookup (Dir es) rest = Some c" and d: "entry_is_directory e = is_dir_node c"
    by auto
  show "\<not> file_matches pat start e"
  proof (cases c)
    case File
    with lk have "lookup (Dir es) rest = Some File" by simp
    from lookup_files_below [OF this ne] have "rest \<in> set (files_below (Dir es))" .
    with nm have "\<not> ends_with (relative_string rest) pat" by blast
    then show ?thesis by (simp add: file_matches_def ep relative_below [OF ne])
  next
    case (Dir x)
    with d show ?thesis by (simp add: file_matches_def)
  qed
qed

lemma downfind_examine:
  assumes "wf_tree t" "lookup t start = Some (Dir es)" "0 < limit"
  shows "downfind (fs_of_tree t) pat start limit
         = examine pat start limit (bfs_order [(start, Dir es)]) 0"
proof -
  from assms(1,2) have "wf_tree (Dir es)" by (rule lookup_wf)
  with assms(2) have "queue_ok t [(start, Dir es)]" by (simp add: queue_ok_def)
  from downfind_loop_examine [OF this assms(3)] show ?thesis
    by (simp add: downfind_def)
qed

lemma downfind_zero: "downfind fs pat start 0 = (Inl (TargetNotFound pat), 0)"
  by (simp add: downfind_def)


subsection \<open>The claims about the downward search\<close>

text \<open>
  Claim C2, as the code has it. Let the start directory hold \<open>K = cnt (Dir es)\<close> entries in
  all, none of them a file whose relative path ends with the pattern, and let the budget
  \<open>L\<close> satisfy \<open>0 < L < K\<close>. Then \<open>downfind\<close> fails with the search-limit error, not with
  the target-not-found error, and its counter stands at exactly \<open>L\<close>. In the loop over
  the entries of a directory, every entry that is not returned as the match, a directory
  or a file that does not match, adds one to the counter, and the search stops with the
  search-limit error as soon as the counter reaches the limit.
\<close>

theorem downfind_budget_exhausted:
  assumes "wf_tree t" and "lookup t start = Some (Dir es)"
    and "\<forall>r\<in>set (files_below (Dir es)). \<not> ends_with (relative_string r) pat"
    and "0 < L" and "L < cnt (Dir es)"
  shows "downfind (fs_of_tree t) pat start L = (Inl SearchLimitReached, L)
       \<and> (\<forall>e rest q c. \<not> file_matches pat start e \<longrightarrow>
            for_entries pat start L (e # rest) q c =
              (if L \<le> c + 1 then Finished (Inl SearchLimitReached) (c + 1)
               else for_entries pat start L rest
                      (if entry_is_directory e then q @ [entry_path e] else q) (c + 1)))"
proof
  let ?E = "bfs_order [(start, Dir es)]"
  from assms(1,2) have wf: "wf_tree (Dir es)" by (rule lookup_wf)
  have nm: "\<forall>e\<in>set ?E. \<not> file_matches pat start e"
    using wf assms(3) by (rule no_match_bfs)
  have len: "length ?E = cnt (Dir es)"
    using length_bfs_order [of "[(start, Dir es)]"]
    by (simp del: cnt.simps bfs_order.simps)
  with assms(5) have le: "L \<le> 0 + length ?E" by simp
  from examine_limit [OF nm assms(4) le, of "[]"]
  have "examine pat start L ?E 0 = (Inl SearchLimitReached, L)" by simp
  with downfind_examine [OF assms(1,2,4)]
  show "downfind (fs_of_tree t) pat start L = (Inl SearchLimitReached, L)" by simp
next
  show "\<forall>e rest q c. \<not> file_matches pat start e \<longrightarrow>
            for_entries pat start L (e # rest) q c =
              (if L \<le> c + 1 then Finished (Inl SearchLimitReached) (c + 1)
               else for_entries pat start L rest
                      (if entry_is_directory e then q @ [entry_path e] else q) (c + 1))"
    by (auto simp: file_matches_def Let_def)
qed

theorem downfind_budget_exhausted_witness:
  "wf_tree example_tree
   \<and> lookup example_tree [''home'', ''u'']
       = Some (Dir [(''a'', Dir [(''b'', Dir [(''c.txt'', File)]), (''x'', File)]),
                    (''r.md'', File)])
   \<and> files_below (Dir [(''a'', Dir [(''b'', Dir [(''c.txt'', File)]), (''x'', File)]),
                       (''r.md'', File)])
       = [[''a'', ''b'', ''c.txt''], [''a'', ''x''], [''r.md'']]
   \<and> cnt (Dir [(''a'', Dir [(''b'', Dir [(''c.txt'', File)]), (''x'', File)]),
               (''r.md'', File)]) = 5
   \<and> downfind (fs_of_tree example_tree) ''x.txt'' [''home'', ''u''] 3
       = (Inl SearchLimitReached, 3)"
proof -
  let ?es = "[(''a'', Dir [(''b'', Dir [(''c.txt'', File)]), (''x'', File)]), (''r.md'', File)]"
  have wf: "wf_tree example_tree"
    by (simp add: example_tree_def)
  have lk: "lookup example_tree [''home'', ''u''] = Some (Dir ?es)"
    by (simp add: example_tree_def)
  have fb: "files_below (Dir ?es) = [[''a'', ''b'', ''c.txt''], [''a'', ''x''], [''r.md'']]"
    by simp
  have nm: "\<forall>r\<in>set (files_below (Dir ?es)). \<not> ends_with (relative_string r) ''x.txt''"
    unfolding fb by (simp add: ends_with_def)
  have k: "cnt (Dir ?es) = 5"
    by simp
  have pos: "(0::nat) < 3" by simp
  have lt: "3 < cnt (Dir ?es)" unfolding k by simp
  from downfind_budget_exhausted [OF wf lk nm pos lt] wf lk fb k show ?thesis
    by blast
qed

theorem downfind_zero_budget_counterexample:
  "wf_tree (Dir [(''a'', File)])
   \<and> lookup (Dir [(''a'', File)]) [] = Some (Dir [(''a'', File)])
   \<and> files_below (Dir [(''a'', File)]) = [[''a'']]
   \<and> \<not> ends_with (relative_string [''a'']) ''x''
   \<and> (0::nat) < cnt (Dir [(''a'', File)])
   \<and> downfind (fs_of_tree (Dir [(''a'', File)])) ''x'' [] 0 = (Inl (TargetNotFound ''x''), 0)
   \<and> fst (downfind (fs_of_tree (Dir [(''a'', File)])) ''x'' [] 0) \<noteq> Inl SearchLimitReached
   \<and> downfind (fs_of_tree (Dir [(''a'', File)])) ''a'' [] 1 = (Inr ''/a'', 0)"
  by (simp add: downfind_def fs_of_tree_def listing_def relative_def ends_with_def
      path_string_def)



text \<open>
  Claim C10. An entry on which the suffix test succeeds is returned with the counter as
  it stands: it does not consume a unit of the budget. So when the entries before it in
  breadth-first order have consumed exactly \<open>limit - 1\<close> units, a match on the next entry
  is returned, whereas an entry that does not match consumes the last unit and the
  search fails with the search-limit error.
\<close>

theorem match_consumes_no_budget:
  "(file_matches pat start e \<longrightarrow>
      for_entries pat start limit (e # rest) q c
        = Finished (Inr (path_string (entry_path e))) c)
   \<and> (wf_tree t \<and> lookup t start = Some (Dir es)
        \<and> bfs_order [(start, Dir es)] = pre @ x # post
        \<and> (\<forall>y\<in>set pre. \<not> file_matches pat start y)
        \<and> limit = length pre + 1
      \<longrightarrow> (file_matches pat start x \<longrightarrow>
             downfind (fs_of_tree t) pat start limit
               = (Inr (path_string (entry_path x)), limit - 1))
        \<and> (\<not> file_matches pat start x \<longrightarrow>
             downfind (fs_of_tree t) pat start limit = (Inl SearchLimitReached, limit)))"
proof (intro conjI impI)
  assume "file_matches pat start e"
  then show "for_entries pat start limit (e # rest) q c
        = Finished (Inr (path_string (entry_path e))) c"
    by (simp add: file_matches_def)
next
  assume h: "wf_tree t \<and> lookup t start = Some (Dir es)
        \<and> bfs_order [(start, Dir es)] = pre @ x # post
        \<and> (\<forall>y\<in>set pre. \<not> file_matches pat start y)
        \<and> limit = length pre + 1"
    and m: "file_matches pat start x"
  from h have wf: "wf_tree t" and lk: "lookup t start = Some (Dir es)"
    and ord: "bfs_order [(start, Dir es)] = pre @ x # post"
    and nm: "\<forall>y\<in>set pre. \<not> file_matches pat start y"
    and lim: "limit = length pre + 1"
    by blast+
  from lim have pos: "0 < limit" and lim0: "0 + length pre < limit" by simp_all
  from examine_first_match [OF nm m lim0, of post] lim
  have "examine pat start limit (pre @ x # post) 0
        = (Inr (path_string (entry_path x)), limit - 1)"
    by simp
  with downfind_examine [OF wf lk pos] ord
  show "downfind (fs_of_tree t) pat start limit
               = (Inr (path_string (entry_path x)), limit - 1)"
    by simp
next
  assume h: "wf_tree t \<and> lookup t start = Some (Dir es)
        \<and> bfs_order [(start, Dir es)] = pre @ x # post
        \<and> (\<forall>y\<in>set pre. \<not> file_matches pat start y)
        \<and> limit = length pre + 1"
    and m: "\<not> file_matches pat start x"
  from h have wf: "wf_tree t" and lk: "lookup t start = Some (Dir es)"
    and ord: "bfs_order [(start, Dir es)] = pre @ x # post"
    and nm: "\<forall>y\<in>set pre. \<not> file_matches pat start y"
    and lim: "limit = length pre + 1"
    by blast+
  from lim have pos: "0 < limit" by simp
  from nm m have nm': "\<forall>y\<in>set (pre @ [x]). \<not> file_matches pat start y" by simp
  from lim have le: "limit \<le> 0 + length (pre @ [x])" by simp
  from examine_limit [OF nm' pos le, of post]
  have "examine pat start limit (pre @ x # post) 0 = (Inl SearchLimitReached, limit)"
    by simp
  with downfind_examine [OF wf lk pos] ord
  show "downfind (fs_of_tree t) pat start limit = (Inl SearchLimitReached, limit)"
    by simp
qed

theorem match_consumes_no_budget_witness:
  "file_matches ''x'' [''home'', ''u'']
     \<lparr>entry_path = [''home'', ''u'', ''a'', ''x''], entry_is_directory = False\<rparr>
   \<and> downfind (fs_of_tree example_tree) ''x'' [''home'', ''u''] 4 = (Inr ''/home/u/a/x'', 3)
   \<and> \<not> file_matches ''c.txt'' [''home'', ''u'']
     \<lparr>entry_path = [''home'', ''u'', ''a'', ''x''], entry_is_directory = False\<rparr>
   \<and> downfind (fs_of_tree example_tree) ''c.txt'' [''home'', ''u''] 4
       = (Inl SearchLimitReached, 4)"
proof -
  let ?es = "[(''a'', Dir [(''b'', Dir [(''c.txt'', File)]), (''x'', File)]), (''r.md'', File)]"
  let ?start = "[''home'', ''u'']"
  let ?pre = "[\<lparr>entry_path = [''home'', ''u'', ''a''], entry_is_directory = True\<rparr>,
        \<lparr>entry_path = [''home'', ''u'', ''r.md''], entry_is_directory = False\<rparr>,
        \<lparr>entry_path = [''home'', ''u'', ''a'', ''b''], entry_is_directory = True\<rparr>]"
  let ?x = "\<lparr>entry_path = [''home'', ''u'', ''a'', ''x''], entry_is_directory = False\<rparr>"
  let ?post = "[\<lparr>entry_path = [''home'', ''u'', ''a'', ''b'', ''c.txt''],
                  entry_is_directory = False\<rparr>]"
  have wf: "wf_tree example_tree"
    by (simp add: example_tree_def)
  have lk: "lookup example_tree ?start = Some (Dir ?es)"
    by (simp add: example_tree_def)
  have ord: "bfs_order [(?start, Dir ?es)] = ?pre @ ?x # ?post"
    by (simp add: listing_def subdirs_def)
  have nm1: "\<forall>y\<in>set ?pre. \<not> file_matches ''x'' ?start y"
    by (simp add: file_matches_def ends_with_def relative_def)
  have nm2: "\<forall>y\<in>set ?pre. \<not> file_matches ''c.txt'' ?start y"
    by (simp add: file_matches_def ends_with_def relative_def)
  have m1: "file_matches ''x'' ?start ?x"
    by (simp add: file_matches_def ends_with_def relative_def)
  have m2: "\<not> file_matches ''c.txt'' ?start ?x"
    by (simp add: file_matches_def ends_with_def relative_def)
  have lim: "(4::nat) = length ?pre + 1" by simp
  from match_consumes_no_budget [where pat = "''x''" and start = ?start and t = example_tree
      and es = ?es and pre = ?pre and x = ?x and post = ?post and limit = 4]
    wf lk ord nm1 lim m1
  have r1: "downfind (fs_of_tree example_tree) ''x'' ?start 4
            = (Inr (path_string (entry_path ?x)), 4 - 1)"
    by blast
  from match_consumes_no_budget [where pat = "''c.txt''" and start = ?start and t = example_tree
      and es = ?es and pre = ?pre and x = ?x and post = ?post and limit = 4]
    wf lk ord nm2 lim m2
  have r2: "downfind (fs_of_tree example_tree) ''c.txt'' ?start 4 = (Inl SearchLimitReached, 4)"
    by blast
  from r1 r2 m1 m2 show ?thesis
    by (simp add: path_string_def)
qed

section \<open>Properties of the command transformation\<close>

lemma tokens_text: "concat (map token_text (tokens s)) = s"
proof (induction s rule: tokens.induct)
  case 1
  show ?case by simp
next
  case (2 c cs)
  show ?case
  proof (cases "is_marker c \<and> takeWhile path_safe cs \<noteq> []")
    case True
    have tk: "tokens (c # cs) = Directive c (takeWhile path_safe cs) # tokens (dropWhile path_safe cs)"
      by (simp only: tokens.simps if_P [OF True])
    from "2.IH"(1) [OF True] show ?thesis
      unfolding tk by simp
  next
    case False
    have tk: "tokens (c # cs) = Lit c # tokens cs"
      by (simp only: tokens.simps if_not_P [OF False])
    from "2.IH"(2) [OF False] show ?thesis
      unfolding tk by simp
  qed
qed

lemma transform_loop_tokens:
  "command = pre @ r \<Longrightarrow> pos = length pre \<Longrightarrow> last_pos \<le> pos
   \<Longrightarrow> (case transform_loop fs cwd command (regex_matches pos r) result last_pos of
          (res, lp) \<Rightarrow> res @ drop lp command)
       = result @ take (pos - last_pos) (drop last_pos command)
           @ concat (map (render fs cwd) (tokens r))"
proof (induction pos r arbitrary: pre result last_pos rule: regex_matches.induct)
  case (1 pos)
  then show ?case by simp
next
  case (2 pos c cs)
  show ?case
  proof (cases "is_marker c \<and> takeWhile path_safe cs \<noteq> []")
    case True
    let ?pat = "takeWhile path_safe cs"
    let ?rest = "dropWhile path_safe cs"
    let ?m = "\<lparr>match_position = pos, match_direction = c, match_pattern = ?pat\<rparr>"
    let ?r2 = "result @ take (pos - last_pos) (drop last_pos command)
                 @ render fs cwd (Directive c ?pat)"
    have rm: "regex_matches pos (c # cs) = ?m # regex_matches (pos + 1 + length ?pat) ?rest"
      by (simp only: regex_matches.simps if_P [OF True])
    have tk: "tokens (c # cs) = Directive c ?pat # tokens ?rest"
      by (simp only: tokens.simps if_P [OF True])
    have cmd: "command = (pre @ c # ?pat) @ ?rest"
      using "2.prems"(1) by simp
    have len: "pos + 1 + length ?pat = length (pre @ c # ?pat)"
      using "2.prems"(2) by simp
    have step: "transform_loop fs cwd command (?m # regex_matches (pos + 1 + length ?pat) ?rest)
                  result last_pos
          = transform_loop fs cwd command
              (regex_matches (pos + 1 + length ?pat) ?rest) ?r2 (pos + 1 + length ?pat)"
      by (simp add: Let_def substr_def match_str0_def split: sum.splits)
    from "2.IH"(1) [OF True cmd len order_refl, of ?r2]
    have "(case transform_loop fs cwd command
              (regex_matches (pos + 1 + length ?pat) ?rest) ?r2 (pos + 1 + length ?pat) of
            (res, lp) \<Rightarrow> res @ drop lp command)
          = ?r2 @ concat (map (render fs cwd) (tokens ?rest))"
      by simp
    then show ?thesis
      unfolding rm tk step by simp
  next
    case False
    have rm: "regex_matches pos (c # cs) = regex_matches (pos + 1) cs"
      by (simp only: regex_matches.simps if_not_P [OF False])
    have tk: "tokens (c # cs) = Lit c # tokens cs"
      by (simp only: tokens.simps if_not_P [OF False])
    have cmd: "command = (pre @ [c]) @ cs"
      using "2.prems"(1) by simp
    have len: "pos + 1 = length (pre @ [c])"
      using "2.prems"(2) by simp
    have le: "last_pos \<le> pos + 1"
      using "2.prems"(3) by simp
    have tk2: "take (pos + 1 - last_pos) (drop last_pos command)
              = take (pos - last_pos) (drop last_pos command) @ [c]"
      using "2.prems" by (simp add: Suc_diff_le)
    from "2.IH"(2) [OF False cmd len le, of result] show ?thesis
      unfolding rm tk tk2 by simp
  qed
qed

lemma transform_command_tokens:
  "transform_command fs cwd command = concat (map (render fs cwd) (tokens command))"
  using transform_loop_tokens [of command "[]" command 0 0 fs cwd "[]"]
  by (simp add: transform_command_def)

lemma no_directive_no_match:
  "(\<forall>i. Suc i < length s \<and> is_marker (s ! i) \<longrightarrow> \<not> path_safe (s ! Suc i))
   \<Longrightarrow> regex_matches pos s = []"
proof (induction pos s rule: regex_matches.induct)
  case (1 pos)
  show ?case by simp
next
  case (2 pos c cs)
  have nomatch: "\<not> (is_marker c \<and> takeWhile path_safe cs \<noteq> [])"
  proof
    assume a: "is_marker c \<and> takeWhile path_safe cs \<noteq> []"
    then obtain d ds where cs: "cs = d # ds" and "path_safe d"
      by (cases cs) (auto split: if_splits)
    with "2.prems" [rule_format, of 0] a show False by simp
  qed
  have tl: "\<forall>i. Suc i < length cs \<and> is_marker (cs ! i) \<longrightarrow> \<not> path_safe (cs ! Suc i)"
  proof (intro allI impI)
    fix i assume "Suc i < length cs \<and> is_marker (cs ! i)"
    with "2.prems" [rule_format, of "Suc i"] show "\<not> path_safe (cs ! Suc i)" by simp
  qed
  have rm: "regex_matches pos (c # cs) = regex_matches (pos + 1) cs"
    by (simp only: regex_matches.simps if_not_P [OF nomatch])
  from "2.IH"(2) [OF nomatch tl] show ?case
    unfolding rm .
qed

lemma has_directive_iff:
  "has_directive s \<longleftrightarrow> (\<exists>i. Suc i < length s \<and> is_marker (s ! i) \<and> path_safe (s ! Suc i))"
proof (induction s rule: has_directive.induct)
  case (1 c d cs)
  show ?case
  proof
    assume "has_directive (c # d # cs)"
    then consider "is_marker c \<and> path_safe d" | "has_directive (d # cs)" by auto
    then show "\<exists>i. Suc i < length (c # d # cs) \<and> is_marker ((c # d # cs) ! i)
                  \<and> path_safe ((c # d # cs) ! Suc i)"
    proof cases
      case 1
      then show ?thesis by (intro exI [of _ 0]) simp
    next
      case 2
      with "1.IH" obtain i where "Suc i < length (d # cs)" "is_marker ((d # cs) ! i)"
        "path_safe ((d # cs) ! Suc i)" by auto
      then show ?thesis by (intro exI [of _ "Suc i"]) simp
    qed
  next
    assume "\<exists>i. Suc i < length (c # d # cs) \<and> is_marker ((c # d # cs) ! i)
                  \<and> path_safe ((c # d # cs) ! Suc i)"
    then obtain i where i: "Suc i < length (c # d # cs)" "is_marker ((c # d # cs) ! i)"
      "path_safe ((c # d # cs) ! Suc i)" by auto
    show "has_directive (c # d # cs)"
    proof (cases i)
      case 0
      with i show ?thesis by simp
    next
      case (Suc j)
      with i have "Suc j < length (d # cs) \<and> is_marker ((d # cs) ! j)
                     \<and> path_safe ((d # cs) ! Suc j)" by simp
      with "1.IH" show ?thesis by auto
    qed
  qed
qed simp_all

lemma tokens_directive:
  "Directive d p \<in> set (tokens s) \<Longrightarrow> is_marker d \<and> p \<noteq> [] \<and> list_all path_safe p"
proof (induction s rule: tokens.induct)
  case 1
  then show ?case by simp
next
  case (2 c cs)
  show ?case
  proof (cases "is_marker c \<and> takeWhile path_safe cs \<noteq> []")
    case True
    have tk: "tokens (c # cs) = Directive c (takeWhile path_safe cs) # tokens (dropWhile path_safe cs)"
      by (simp only: tokens.simps if_P [OF True])
    from "2.prems" [unfolded tk]
    consider "d = c \<and> p = takeWhile path_safe cs"
      | "Directive d p \<in> set (tokens (dropWhile path_safe cs))" by auto
    then show ?thesis
    proof cases
      case 1
      with True show ?thesis by (auto simp: list_all_iff dest: set_takeWhileD)
    next
      case 2
      from "2.IH"(1) [OF True this] show ?thesis .
    qed
  next
    case False
    have tk: "tokens (c # cs) = Lit c # tokens cs"
      by (simp only: tokens.simps if_not_P [OF False])
    from "2.prems" [unfolded tk] have "Directive d p \<in> set (tokens cs)" by simp
    from "2.IH"(2) [OF False this] show ?thesis .
  qed
qed

lemma render_all_failed:
  "(\<forall>d p. Directive d p \<in> set ts \<longrightarrow> (\<exists>e. find_path fs cwd d p = Inl e))
   \<Longrightarrow> concat (map (render fs cwd) ts) = concat (map token_text ts)"
proof (induction ts)
  case Nil
  show ?case by simp
next
  case (Cons tok ts)
  from Cons.prems have rest: "concat (map (render fs cwd) ts) = concat (map token_text ts)"
    by (intro Cons.IH) auto
  show ?case
  proof (cases tok)
    case (Lit c)
    with rest show ?thesis by simp
  next
    case (Directive d p)
    with Cons.prems obtain e where "find_path fs cwd d p = Inl e" by auto
    with Directive rest show ?thesis by simp
  qed
qed

text \<open>
  Claim C6. A line in which no marker \<open><\<close> or \<open>>\<close> is immediately followed by a path
  character is returned by \<open>transform_command\<close> as it is.
\<close>

theorem transform_plain_text:
  assumes "\<forall>i. Suc i < length s \<and> is_marker (s ! i) \<longrightarrow> \<not> path_safe (s ! Suc i)"
  shows "transform_command fs cwd s = s"
proof -
  from assms have "regex_matches 0 s = []" by (rule no_directive_no_match)
  then show ?thesis by (simp add: transform_command_def)
qed

theorem transform_plain_text_witness:
  "\<not> has_directive ''echo a > b < c''
   \<and> transform_command (fs_of_tree example_tree) [''home'', ''u''] ''echo a > b < c''
       = ''echo a > b < c''"
proof -
  have nd: "\<not> has_directive ''echo a > b < c''"
    by (simp add: is_marker_def path_safe_def)
  then have "\<forall>i. Suc i < length ''echo a > b < c'' \<and> is_marker (''echo a > b < c'' ! i)
                 \<longrightarrow> \<not> path_safe (''echo a > b < c'' ! Suc i)"
    unfolding has_directive_iff by blast
  from transform_plain_text [OF this] nd show ?thesis by blast
qed

text \<open>
  Claim C7. The line is the concatenation of its tokens, directives and single characters
  outside them, and the output of \<open>transform_command\<close> is the concatenation of the
  tokens rendered one by one in order. A character outside the directives is rendered as
  itself. A directive whose search fails, with whatever error, is rendered as its own
  text, and the tokens before and after it are rendered all the same; a directive whose
  search succeeds is rendered as the path found. When every directive of the line fails,
  the output is the line.
\<close>

theorem transform_failed_directive_kept:
  "concat (map token_text (tokens s)) = s
   \<and> transform_command fs cwd s = concat (map (render fs cwd) (tokens s))
   \<and> render fs cwd (Lit c) = [c]
   \<and> (find_path fs cwd d p = Inl e \<longrightarrow> render fs cwd (Directive d p) = d # p)
   \<and> (find_path fs cwd d p = Inr found \<longrightarrow> render fs cwd (Directive d p) = found)
   \<and> (tokens s = bef @ Directive d p # aft \<and> find_path fs cwd d p = Inl e \<longrightarrow>
        s = concat (map token_text bef) @ (d # p) @ concat (map token_text aft)
        \<and> transform_command fs cwd s
            = concat (map (render fs cwd) bef) @ (d # p) @ concat (map (render fs cwd) aft))
   \<and> (Directive d p \<in> set (tokens s) \<longrightarrow> is_marker d \<and> p \<noteq> [] \<and> list_all path_safe p)
   \<and> ((\<forall>d p. Directive d p \<in> set (tokens s) \<longrightarrow> (\<exists>e. find_path fs cwd d p = Inl e))
        \<longrightarrow> transform_command fs cwd s = s)"
proof -
  have t1: "concat (map token_text (tokens s)) = s"
    by (rule tokens_text)
  have t2: "transform_command fs cwd s = concat (map (render fs cwd) (tokens s))"
    by (rule transform_command_tokens)
  have t3: "render fs cwd (Lit c) = [c]"
    by simp
  have t4: "find_path fs cwd d p = Inl e \<longrightarrow> render fs cwd (Directive d p) = d # p"
    by simp
  have t5: "find_path fs cwd d p = Inr found \<longrightarrow> render fs cwd (Directive d p) = found"
    by simp
  have t6: "tokens s = bef @ Directive d p # aft \<and> find_path fs cwd d p = Inl e \<longrightarrow>
        s = concat (map token_text bef) @ (d # p) @ concat (map token_text aft)
        \<and> transform_command fs cwd s
            = concat (map (render fs cwd) bef) @ (d # p) @ concat (map (render fs cwd) aft)"
  proof
    assume h: "tokens s = bef @ Directive d p # aft \<and> find_path fs cwd d p = Inl e"
    from t1 h have "s = concat (map token_text bef) @ (d # p) @ concat (map token_text aft)"
      by simp
    moreover from t2 h have "transform_command fs cwd s
            = concat (map (render fs cwd) bef) @ (d # p) @ concat (map (render fs cwd) aft)"
      by simp
    ultimately show "s = concat (map token_text bef) @ (d # p) @ concat (map token_text aft)
        \<and> transform_command fs cwd s
            = concat (map (render fs cwd) bef) @ (d # p) @ concat (map (render fs cwd) aft)"
      by blast
  qed
  have t7: "Directive d p \<in> set (tokens s) \<longrightarrow> is_marker d \<and> p \<noteq> [] \<and> list_all path_safe p"
    using tokens_directive by blast
  have t8: "(\<forall>d p. Directive d p \<in> set (tokens s) \<longrightarrow> (\<exists>e. find_path fs cwd d p = Inl e))
        \<longrightarrow> transform_command fs cwd s = s"
    using render_all_failed [of "tokens s" fs cwd] t1 t2 by simp
  from t1 t2 t3 t4 t5 t6 t7 t8 show ?thesis
    by (intro conjI)
qed

theorem transform_failed_directive_kept_witness:
  "tokens ''ls >c.txt <nope''
     = [Lit CHR ''l'', Lit CHR ''s'', Lit CHR '' '', Directive CHR ''>'' ''c.txt'',
        Lit CHR '' ''] @ Directive CHR ''<'' ''nope'' # []
   \<and> find_path (fs_of_tree example_tree) [''home'', ''u'', ''a''] CHR ''<'' ''nope''
       = Inl (DirectoryNotFound ''nope'' ''/home/u/a'')
   \<and> find_path (fs_of_tree example_tree) [''home'', ''u'', ''a''] CHR ''>'' ''c.txt''
       = Inr ''/home/u/a/b/c.txt''
   \<and> transform_command (fs_of_tree example_tree) [''home'', ''u'', ''a''] ''ls >c.txt <nope''
       = ''ls /home/u/a/b/c.txt <nope''"
proof -
  let ?fs = "fs_of_tree example_tree"
  let ?cwd = "[''home'', ''u'', ''a'']"
  let ?ts1 = "[Lit CHR ''l'', Lit CHR ''s'', Lit CHR '' '', Directive CHR ''>'' ''c.txt'',
        Lit CHR '' '']"
  have tk: "tokens ''ls >c.txt <nope'' = ?ts1 @ Directive CHR ''<'' ''nope'' # []"
    by (simp add: is_marker_def path_safe_def)
  have up: "find_path ?fs ?cwd CHR ''<'' ''nope'' = Inl (DirectoryNotFound ''nope'' ''/home/u/a'')"
    by (simp add: find_path_def upfind_def upfind_loop_unfold directory_test_def
        fs_of_tree_def example_tree_def path_append_def path_string_def)
  have down: "find_path ?fs ?cwd CHR ''>'' ''c.txt'' = Inr ''/home/u/a/b/c.txt''"
    by (simp add: find_path_def downfind_def fs_of_tree_def example_tree_def listing_def
        relative_def ends_with_def path_string_def)
  from transform_failed_directive_kept [where s = "''ls >c.txt <nope''" and fs = ?fs
      and cwd = ?cwd and bef = ?ts1 and aft = "[]" and d = "CHR ''<''" and p = "''nope''"
      and e = "DirectoryNotFound ''nope'' ''/home/u/a''"] tk up
  have "transform_command ?fs ?cwd ''ls >c.txt <nope''
        = concat (map (render ?fs ?cwd) ?ts1) @ (CHR ''<'' # ''nope'') @ concat (map (render ?fs ?cwd) [])"
    by blast
  with down have "transform_command ?fs ?cwd ''ls >c.txt <nope'' = ''ls /home/u/a/b/c.txt <nope''"
    by simp
  with tk up down show ?thesis by blast
qed

section \<open>Properties of the directory change\<close>

lemma change_directory_failure:
  "chdir (process_cwd sh) path = Inl err
   \<Longrightarrow> change_directory chdir path upd sh
       = (False, sh\<lparr>stderr_lines := stderr_lines sh @ [''chdir failed: '' @ err]\<rparr>)"
  by (simp add: change_directory_def)

lemma change_directory_success:
  "chdir (process_cwd sh) path = Inr d
   \<Longrightarrow> change_directory chdir path True sh
       = (True, sh\<lparr>process_cwd := d, dir_history := add (path_string d) (dir_history sh)\<rparr>)"
  by (simp add: change_directory_def)

lemma run_cd_success:
  assumes "chdir (process_cwd sh) (cd_target home args) = Inr d"
  shows "process_cwd (run_cd chdir home args sh) = d"
    and "dir_history (run_cd chdir home args sh) = add (path_string d) (dir_history sh)"
  using assms
  by (simp_all add: run_cd_def change_directory_success split: sum.splits)

text \<open>
  Claim C9, as the code has it. When the operating system rejects the directory change,
  \<open>change_directory\<close> returns false and the \<open>cd\<close> command only reports the error: the
  working directory, the entries of the history and its cursor are as before. When the
  change succeeds, the working directory is the new one and \<open>add\<close> is applied to the
  history with the new working directory: it is appended, and the cursor moved to it,
  unless it equals the tail entry, in which case the history is left as it was.
\<close>

theorem cd_failure_and_success:
  "(chdir (process_cwd sh) (cd_target home args) = Inl err \<longrightarrow>
      change_directory chdir (cd_target home args) True sh
        = (False, sh\<lparr>stderr_lines := stderr_lines sh @ [''chdir failed: '' @ err]\<rparr>)
      \<and> run_cd chdir home args sh
          = sh\<lparr>stderr_lines := stderr_lines sh @ [''chdir failed: '' @ err]\<rparr>
      \<and> process_cwd (run_cd chdir home args sh) = process_cwd sh
      \<and> dir_history (run_cd chdir home args sh) = dir_history sh)
   \<and> (chdir (process_cwd sh) (cd_target home args) = Inr d \<longrightarrow>
      process_cwd (run_cd chdir home args sh) = d
      \<and> dir_history (run_cd chdir home args sh) = add (path_string d) (dir_history sh)
      \<and> (history (dir_history sh) = [] \<or> last (history (dir_history sh)) \<noteq> path_string d \<longrightarrow>
           history (dir_history (run_cd chdir home args sh))
             = history (dir_history sh) @ [path_string d]
           \<and> current_index (dir_history (run_cd chdir home args sh))
             = length (history (dir_history sh)))
      \<and> (history (dir_history sh) \<noteq> [] \<and> last (history (dir_history sh)) = path_string d \<longrightarrow>
           dir_history (run_cd chdir home args sh) = dir_history sh))"
proof (intro conjI impI)
  assume f: "chdir (process_cwd sh) (cd_target home args) = Inl err"
  from change_directory_failure [where chdir = chdir and sh = sh and upd = True, OF f]
  show cd: "change_directory chdir (cd_target home args) True sh
        = (False, sh\<lparr>stderr_lines := stderr_lines sh @ [''chdir failed: '' @ err]\<rparr>)" .
  then show rc: "run_cd chdir home args sh
          = sh\<lparr>stderr_lines := stderr_lines sh @ [''chdir failed: '' @ err]\<rparr>"
    by (simp add: run_cd_def)
  from rc show "process_cwd (run_cd chdir home args sh) = process_cwd sh" by simp
  from rc show "dir_history (run_cd chdir home args sh) = dir_history sh" by simp
next
  assume s: "chdir (process_cwd sh) (cd_target home args) = Inr d"
  from run_cd_success [where chdir = chdir and sh = sh, OF s] show "process_cwd (run_cd chdir home args sh) = d"
    and "dir_history (run_cd chdir home args sh) = add (path_string d) (dir_history sh)"
    by simp_all
next
  assume s: "chdir (process_cwd sh) (cd_target home args) = Inr d"
    and n: "history (dir_history sh) = [] \<or> last (history (dir_history sh)) \<noteq> path_string d"
  from run_cd_success(2) [where chdir = chdir and sh = sh, OF s] n
  show "history (dir_history (run_cd chdir home args sh))
             = history (dir_history sh) @ [path_string d]"
    by (auto simp: add_def)
  from run_cd_success(2) [where chdir = chdir and sh = sh, OF s] n
  show "current_index (dir_history (run_cd chdir home args sh))
             = length (history (dir_history sh))"
    by (auto simp: add_def)
next
  assume s: "chdir (process_cwd sh) (cd_target home args) = Inr d"
    and n: "history (dir_history sh) \<noteq> [] \<and> last (history (dir_history sh)) = path_string d"
  from run_cd_success(2) [where chdir = chdir and sh = sh, OF s] n
  show "dir_history (run_cd chdir home args sh) = dir_history sh"
    by (simp add: add_def)
qed

theorem cd_failure_and_success_witness:
  "chdir_of_tree example_tree (process_cwd example_shell) (cd_target None [''cd'', ''nope''])
     = Inl ''No such file or directory''
   \<and> run_cd (chdir_of_tree example_tree) None [''cd'', ''nope''] example_shell
       = \<lparr>dir_history = \<lparr>history = [''/home/u''], current_index = 0\<rparr>,
          process_cwd = [''home'', ''u''], stdout_lines = [],
          stderr_lines = [''chdir failed: No such file or directory'']\<rparr>
   \<and> chdir_of_tree example_tree (process_cwd example_shell) (cd_target None [''cd'', ''a/b''])
       = Inr [''home'', ''u'', ''a'', ''b'']
   \<and> process_cwd (run_cd (chdir_of_tree example_tree) None [''cd'', ''a/b''] example_shell)
       = [''home'', ''u'', ''a'', ''b'']
   \<and> dir_history (run_cd (chdir_of_tree example_tree) None [''cd'', ''a/b''] example_shell)
       = \<lparr>history = [''/home/u'', ''/home/u/a/b''], current_index = 1\<rparr>"
proof -
  let ?chdir = "chdir_of_tree example_tree"
  have sh: "example_shell = \<lparr>dir_history = \<lparr>history = [''/home/u''], current_index = 0\<rparr>,
          process_cwd = [''home'', ''u''], stdout_lines = [], stderr_lines = []\<rparr>"
    by (simp add: example_shell_def seeded_def add_def empty_history_def)
  have f: "?chdir (process_cwd example_shell) (cd_target None [''cd'', ''nope''])
           = Inl ''No such file or directory''"
    by (simp add: sh chdir_of_tree_def cd_target_def fs_of_tree_def example_tree_def)
  have s: "?chdir (process_cwd example_shell) (cd_target None [''cd'', ''a/b''])
           = Inr [''home'', ''u'', ''a'', ''b'']"
    by (simp add: sh chdir_of_tree_def cd_target_def fs_of_tree_def example_tree_def)
  from cd_failure_and_success [of ?chdir example_shell None "[''cd'', ''nope'']"
      "''No such file or directory''"] f
  have r1: "run_cd ?chdir None [''cd'', ''nope''] example_shell
        = example_shell\<lparr>stderr_lines := stderr_lines example_shell
                          @ [''chdir failed: '' @ ''No such file or directory'']\<rparr>"
    by blast
  from cd_failure_and_success [of ?chdir example_shell None "[''cd'', ''a/b'']" _
      "[''home'', ''u'', ''a'', ''b'']"] s
  have r2: "process_cwd (run_cd ?chdir None [''cd'', ''a/b''] example_shell)
              = [''home'', ''u'', ''a'', ''b'']"
    and r3: "dir_history (run_cd ?chdir None [''cd'', ''a/b''] example_shell)
              = add (path_string [''home'', ''u'', ''a'', ''b'']) (dir_history example_shell)"
    by blast+
  from r1 have r1': "run_cd ?chdir None [''cd'', ''nope''] example_shell
       = \<lparr>dir_history = \<lparr>history = [''/home/u''], current_index = 0\<rparr>,
          process_cwd = [''home'', ''u''], stdout_lines = [],
          stderr_lines = [''chdir failed: No such file or directory'']\<rparr>"
    by (simp add: sh)
  from r3 have r3': "dir_history (run_cd ?chdir None [''cd'', ''a/b''] example_shell)
       = \<lparr>history = [''/home/u'', ''/home/u/a/b''], current_index = 1\<rparr>"
    by (simp add: sh add_def path_string_def)
  from f s r1' r2 r3' show ?thesis by blast
qed

theorem cd_same_directory_counterexample:
  "chdir_of_tree example_tree (process_cwd example_shell) (cd_target None [''cd'', ''.''])
     = Inr [''home'', ''u'']
   \<and> history (dir_history example_shell) = [''/home/u'']
   \<and> history (dir_history (run_cd (chdir_of_tree example_tree) None [''cd'', ''.'']
                              example_shell)) = [''/home/u'']
   \<and> history (dir_history (run_cd (chdir_of_tree example_tree) None [''cd'', ''.'']
                              example_shell))
       \<noteq> history (dir_history example_shell) @ [path_string [''home'', ''u'']]"
  by (simp add: example_shell_def seeded_def add_def empty_history_def chdir_of_tree_def
      cd_target_def fs_of_tree_def example_tree_def run_cd_def change_directory_def
      path_string_def current_def deque_at_def)

end
